theory Spec2Isabelle
  imports Complex_Main
begin

section \<open>Strings of the host language\<close>

text \<open>
  The program is TypeScript. A source string is modelled by its UTF-8 bytes, so that an
  ASCII literal of the source is the same literal here, and the characters outside ASCII
  that the source names (the en dash, the em dash, the Unicode white space of
  \<^verbatim>\<open>trim()\<close> and of the regular expression class \<^verbatim>\<open>\s\<close>) are the byte
  sequences below. The delimiters the source splits on are ASCII, and an ASCII byte never
  occurs inside a longer UTF-8 sequence, so splitting on bytes is splitting on characters.
\<close>

text \<open>The class \<^verbatim>\<open>\d\<close>: the ASCII digits, codes 48 to 57.\<close>

definition isDigit :: "char \<Rightarrow> bool" where
  "isDigit c = ((48::int) \<le> of_char c \<and> of_char c \<le> (57::int))"

definition digitVal :: "char \<Rightarrow> int" where
  "digitVal c = of_char c - 48"

definition allDigits :: "string \<Rightarrow> bool" where
  "allDigits s = list_all isDigit s"

text \<open>
  White space of ECMAScript (WhiteSpace and LineTerminator): TAB, LF, VT, FF, CR, SPACE,
  U+00A0, U+1680, U+2000 to U+200A, U+2028, U+2029, U+202F, U+205F, U+3000, U+FEFF.
\<close>

definition wsSeqs :: "string list" where
  "wsSeqs =
    [[CHR 0x09], [CHR 0x0A], [CHR 0x0B], [CHR 0x0C], [CHR 0x0D], [CHR 0x20],
     [CHR 0xC2, CHR 0xA0],
     [CHR 0xE1, CHR 0x9A, CHR 0x80],
     [CHR 0xE2, CHR 0x80, CHR 0x80], [CHR 0xE2, CHR 0x80, CHR 0x81],
     [CHR 0xE2, CHR 0x80, CHR 0x82], [CHR 0xE2, CHR 0x80, CHR 0x83],
     [CHR 0xE2, CHR 0x80, CHR 0x84], [CHR 0xE2, CHR 0x80, CHR 0x85],
     [CHR 0xE2, CHR 0x80, CHR 0x86], [CHR 0xE2, CHR 0x80, CHR 0x87],
     [CHR 0xE2, CHR 0x80, CHR 0x88], [CHR 0xE2, CHR 0x80, CHR 0x89],
     [CHR 0xE2, CHR 0x80, CHR 0x8A],
     [CHR 0xE2, CHR 0x80, CHR 0xA8], [CHR 0xE2, CHR 0x80, CHR 0xA9],
     [CHR 0xE2, CHR 0x80, CHR 0xAF],
     [CHR 0xE2, CHR 0x81, CHR 0x9F],
     [CHR 0xE3, CHR 0x80, CHR 0x80],
     [CHR 0xEF, CHR 0xBB, CHR 0xBF]]"

fun startsWith :: "string \<Rightarrow> string \<Rightarrow> bool" where
  "startsWith [] s = True"
| "startsWith (p # ps) [] = False"
| "startsWith (p # ps) (c # cs) = (p = c \<and> startsWith ps cs)"

text \<open>The number of bytes of the white-space character (or, in \<open>stripLen\<close>, of the
  member of a list of byte sequences) a string starts with; 0 when it starts with none.\<close>

definition stripLen :: "string list \<Rightarrow> string \<Rightarrow> nat" where
  "stripLen ws s = (case find (\<lambda>w. startsWith w s) ws of None \<Rightarrow> 0 | Some w \<Rightarrow> length w)"

definition wsLen :: "string \<Rightarrow> nat" where
  "wsLen s = stripLen wsSeqs s"

function stripAll :: "string list \<Rightarrow> string \<Rightarrow> string" where
  "stripAll ws s =
     (if stripLen ws s = 0 \<or> s = [] then s else stripAll ws (drop (stripLen ws s) s))"
  by pat_completeness auto
termination
  by (relation "measure (\<lambda>(ws, s). length s)") auto

declare stripAll.simps [simp del]

definition trimStart :: "string \<Rightarrow> string" where
  "trimStart s = stripAll wsSeqs s"

definition trimEnd :: "string \<Rightarrow> string" where
  "trimEnd s = rev (stripAll (map rev wsSeqs) (rev s))"

text \<open>\<^verbatim>\<open>String.prototype.trim\<close>.\<close>

definition trim :: "string \<Rightarrow> string" where
  "trim s = trimEnd (trimStart s)"

text \<open>\<^verbatim>\<open>.replace(/\s+/g, ' ')\<close>: every maximal run of white space becomes one space.
  The flag says that the bytes just consumed were white space.\<close>

function collapseFrom :: "bool \<Rightarrow> string \<Rightarrow> string" where
  "collapseFrom inWs [] = []"
| "collapseFrom inWs (c # cs) =
     (if wsLen (c # cs) = 0 then c # collapseFrom False cs
      else (if inWs then [] else '' '') @ collapseFrom True (drop (wsLen (c # cs)) (c # cs)))"
  by pat_completeness auto
termination
  by (relation "measure (\<lambda>(b, s). length s)") auto

definition collapseWs :: "string \<Rightarrow> string" where
  "collapseWs s = collapseFrom False s"

text \<open>The replacement of every en dash (U+2013, bytes E2 80 93) and em dash (U+2014, bytes
  E2 80 94) by a hyphen.\<close>

fun normDashes :: "string \<Rightarrow> string" where
  "normDashes (a # b # c # cs) =
     (if a = CHR 0xE2 \<and> b = CHR 0x80 \<and> (c = CHR 0x93 \<or> c = CHR 0x94)
      then CHR ''-'' # normDashes cs
      else a # normDashes (b # c # cs))"
| "normDashes cs = cs"

text \<open>The number of bytes of the dash (hyphen, en dash or em dash) a string starts with.\<close>

definition dashLen :: "string \<Rightarrow> nat" where
  "dashLen s =
     stripLen [''-'', [CHR 0xE2, CHR 0x80, CHR 0x93], [CHR 0xE2, CHR 0x80, CHR 0x94]] s"

text \<open>Lower case of the ASCII letters. The source lowers a string only to compare it with
  an ASCII word (\<^verbatim>\<open>'category'\<close>) or to look up three matched ASCII letters; no
  character outside ASCII lowers to a letter of that word, so the comparison is decided
  by the ASCII letters alone.\<close>

definition lowerChar :: "char \<Rightarrow> char" where
  "lowerChar c =
     (if (65::int) \<le> of_char c \<and> of_char c \<le> (90::int) then char_of (of_char c + (32::int)) else c)"

definition toLowerCase :: "string \<Rightarrow> string" where
  "toLowerCase s = map lowerChar s"

text \<open>\<^verbatim>\<open>s.split(d)\<close> for a one-character delimiter: never the empty list.\<close>

fun splitOn :: "char \<Rightarrow> string \<Rightarrow> string list" where
  "splitOn d [] = [[]]"
| "splitOn d (c # cs) =
     (if c = d then [] # splitOn d cs
      else (case splitOn d cs of [] \<Rightarrow> [[c]] | p # ps \<Rightarrow> (c # p) # ps))"

text \<open>\<^verbatim>\<open>s.replace(a, b)\<close> with a string pattern: the first occurrence only.\<close>

fun replaceFirst :: "char \<Rightarrow> char \<Rightarrow> string \<Rightarrow> string" where
  "replaceFirst a b [] = []"
| "replaceFirst a b (c # cs) = (if c = a then b # cs else c # replaceFirst a b cs)"

text \<open>\<^verbatim>\<open>values.join(sep)\<close>.\<close>

fun joinWith :: "string \<Rightarrow> string list \<Rightarrow> string" where
  "joinWith sep [] = []"
| "joinWith sep [x] = x"
| "joinWith sep (x # y # ys) = x @ sep @ joinWith sep (y # ys)"

text \<open>\<^verbatim>\<open>s.padStart(2, '0')\<close>.\<close>

definition padStart2 :: "string \<Rightarrow> string" where
  "padStart2 s = replicate (2 - length s) CHR ''0'' @ s"

section \<open>Numbers as text\<close>

definition digitChar :: "int \<Rightarrow> char" where
  "digitChar n = char_of (48 + n mod 10)"

text \<open>The decimal digits of a natural number.\<close>

function natToString :: "int \<Rightarrow> string" where
  "natToString n = (if n < 10 then [digitChar n] else natToString (n div 10) @ [digitChar n])"
  by pat_completeness auto
termination
  by (relation "measure nat") auto

declare natToString.simps [simp del]

text \<open>\<^verbatim>\<open>String(n)\<close> of an integer in plain decimal notation.\<close>

definition intToString :: "int \<Rightarrow> string" where
  "intToString n = (if n < 0 then CHR ''-'' # natToString (- n) else natToString n)"

definition digitsToInt :: "string \<Rightarrow> int" where
  "digitsToInt s = foldl (\<lambda>a c. 10 * a + digitVal c) 0 s"

text \<open>\<^verbatim>\<open>parseInt(s, 10)\<close>: leading white space, an optional sign, then the longest run
  of digits; \<open>None\<close> is NaN.\<close>

definition parseInt :: "string \<Rightarrow> int option" where
  "parseInt s =
     (let t = trimStart s;
          neg = (t \<noteq> [] \<and> hd t = CHR ''-'');
          u = (if t \<noteq> [] \<and> (hd t = CHR ''-'' \<or> hd t = CHR ''+'') then tl t else t);
          ds = takeWhile isDigit u
      in if ds = [] then None
         else Some (if neg then - digitsToInt ds else digitsToInt ds))"

section \<open>The calendar of the host's \<^verbatim>\<open>Date\<close>\<close>

text \<open>
  ECMAScript counts time in milliseconds from 1970-01-01 UTC and days as
  \<open>Day(t) = floor (t / msPerDay)\<close>. The functions below are its DayFromYear,
  YearFromTime, InLeapYear, MonthFromTime, DateFromTime and MakeDay, on day numbers.
  \<open>yearFromDay d\<close> is the largest year whose first day is not after \<open>d\<close>
  (lemma \<open>yearFromDay_bounds\<close>). Months are counted from 0, as the source does.
\<close>

definition MS_PER_DAY :: int where
  "MS_PER_DAY = 24 * 60 * 60 * 1000"

definition dayFromYear :: "int \<Rightarrow> int" where
  "dayFromYear y =
     365 * (y - 1970) + (y - 1969) div 4 - (y - 1901) div 100 + (y - 1601) div 400"

definition yearFromDay :: "int \<Rightarrow> int" where
  "yearFromDay d =
     (let y = 1970 + (d * 400) div 146097
      in if dayFromYear (y + 1) \<le> d then y + 1
         else if dayFromYear y \<le> d then y
         else y - 1)"

definition inLeapYear :: "int \<Rightarrow> bool" where
  "inLeapYear y = (y mod 4 = 0 \<and> (y mod 100 \<noteq> 0 \<or> y mod 400 = 0))"

definition dayWithinYear :: "int \<Rightarrow> int" where
  "dayWithinYear d = d - dayFromYear (yearFromDay d)"

text \<open>The day within the year on which month \<open>m\<close> (0 to 11) starts.\<close>

definition monthStart :: "bool \<Rightarrow> int \<Rightarrow> int" where
  "monthStart leap m =
     (let l = (if leap then 1 else 0)
      in [0, 31, 59 + l, 90 + l, 120 + l, 151 + l, 181 + l, 212 + l, 243 + l, 273 + l,
          304 + l, 334 + l] ! nat m)"

definition monthFromDay :: "int \<Rightarrow> int" where
  "monthFromDay d =
     (let w = dayWithinYear d; l = (if inLeapYear (yearFromDay d) then 1 else 0)
      in if w < 31 then 0
         else if w < 59 + l then 1
         else if w < 90 + l then 2
         else if w < 120 + l then 3
         else if w < 151 + l then 4
         else if w < 181 + l then 5
         else if w < 212 + l then 6
         else if w < 243 + l then 7
         else if w < 273 + l then 8
         else if w < 304 + l then 9
         else if w < 334 + l then 10
         else 11)"

definition dateFromDay :: "int \<Rightarrow> int" where
  "dateFromDay d =
     dayWithinYear d - monthStart (inLeapYear (yearFromDay d)) (monthFromDay d) + 1"

text \<open>MakeDay: a month outside 0 to 11 carries into the year, a day outside the month
  carries into the neighbouring months.\<close>

definition makeDay :: "int \<Rightarrow> int \<Rightarrow> int \<Rightarrow> int" where
  "makeDay y m dt =
     (let ym = y + m div 12; mn = m mod 12
      in dayFromYear ym + monthStart (inLeapYear ym) mn + dt - 1)"

subsection \<open>Local time\<close>

text \<open>
  The time zone of the host is ECMAScript's \<open>LocalTZA(t, isUTC)\<close>: the offset in
  milliseconds of local time from UTC, at the UTC time \<open>t\<close> when \<open>isUTC\<close> holds and at
  the local time \<open>t\<close> otherwise (for a local time that a change of the clock skips or
  repeats the host picks one of the two offsets). Two facts about every host are part of
  the type. An offset is less than a day. And the local time one day after the local time
  of \<open>t\<close> is, as a time, after \<open>t\<close>: stepping a date to the next day moves it forward
  (this is what makes the loop of \<^verbatim>\<open>parseWeekRange\<close> end).
\<close>

typedef zone = "{f :: int \<Rightarrow> bool \<Rightarrow> int.
    (\<forall>t b. \<bar>f t b\<bar> < MS_PER_DAY) \<and>
    (\<forall>t. f (t + f t True + MS_PER_DAY) False < f t True + MS_PER_DAY)}"
  by (rule exI [of _ "\<lambda>t b. 0"]) (simp add: MS_PER_DAY_def)

setup_lifting type_definition_zone

lift_definition offsetAt :: "zone \<Rightarrow> int \<Rightarrow> bool \<Rightarrow> int" is "\<lambda>f. f" .

text \<open>A zone with the same offset at all times (0 when the offset given is a day or
  more).\<close>

lift_definition fixedZone :: "int \<Rightarrow> zone" is
  "\<lambda>k t b. if \<bar>k\<bar> < MS_PER_DAY then k else 0"
  by (simp add: MS_PER_DAY_def)


text \<open>
  What the program takes from its host and the language leaves open. \<open>zone h\<close> is the
  time zone (\<^verbatim>\<open>getFullYear\<close> and the dates of \<^verbatim>\<open>parseWeekRange\<close> are in local time).
  \<open>isoDayLimit h y m\<close> is the largest day of month \<open>m\<close> (1 to 12) of year \<open>y\<close> that
  \<^verbatim>\<open>new Date("YYYY-MM-DD")\<close> accepts: 31 for every month in some engines, the length of
  the month in others. \<open>numberText h x\<close> is \<^verbatim>\<open>String(x)\<close> for the numbers \<open>x\<close> whose
  digits the model does not compute: those that are not integers and those of magnitude
  \<open>2^53\<close> or more.
\<close>

record host =
  zone :: zone
  isoDayLimit :: "int \<Rightarrow> int \<Rightarrow> int"
  numberText :: "rat \<Rightarrow> string"

definition localTZA :: "host \<Rightarrow> int \<Rightarrow> bool \<Rightarrow> int" where
  "localTZA h t isUTC = offsetAt (zone h) t isUTC"

text \<open>ECMAScript's \<open>LocalTime(t)\<close> and \<open>UTC(t)\<close>.\<close>

definition localTime :: "host \<Rightarrow> int \<Rightarrow> int" where
  "localTime h t = t + localTZA h t True"

definition utcTime :: "host \<Rightarrow> int \<Rightarrow> int" where
  "utcTime h t = t - localTZA h t False"

text \<open>\<^verbatim>\<open>getFullYear\<close>, \<^verbatim>\<open>getMonth\<close> and \<^verbatim>\<open>getDate\<close>: the year, month and day of the
  month of the local time.\<close>

definition getFullYear :: "host \<Rightarrow> int \<Rightarrow> int" where
  "getFullYear h t = yearFromDay (localTime h t div MS_PER_DAY)"

definition getMonth :: "host \<Rightarrow> int \<Rightarrow> int" where
  "getMonth h t = monthFromDay (localTime h t div MS_PER_DAY)"

definition getDate :: "host \<Rightarrow> int \<Rightarrow> int" where
  "getDate h t = dateFromDay (localTime h t div MS_PER_DAY)"

text \<open>
  \<^verbatim>\<open>new Date(year, month, day)\<close>: local midnight of the day, as a time. The program
  builds such dates in 2025 and the months after it only, far inside the range of
  \<^verbatim>\<open>Date\<close>.
\<close>

definition newDate :: "host \<Rightarrow> int \<Rightarrow> int \<Rightarrow> int \<Rightarrow> int" where
  "newDate h year month day = utcTime h (makeDay year month day * MS_PER_DAY)"

text \<open>\<^verbatim>\<open>d.setDate(dt)\<close>: the local time of \<open>d\<close> with the day of the month replaced,
  as a time.\<close>

definition setDate :: "host \<Rightarrow> int \<Rightarrow> int \<Rightarrow> int" where
  "setDate h t dt =
     (let l = localTime h t; day = l div MS_PER_DAY
      in utcTime h (makeDay (yearFromDay day) (monthFromDay day) dt * MS_PER_DAY
                    + l mod MS_PER_DAY))"

section \<open>Numbers\<close>

text \<open>A number of the host is NaN, an infinity, or a finite binary64 value, kept as the
  rational it denotes (the two zeros are not told apart: the program only prints them
  with \<^verbatim>\<open>toFixed\<close>, which prints both alike).\<close>

datatype jsnum = NaN | PosInfinity | NegInfinity | Fin rat

function bitLength :: "int \<Rightarrow> int" where
  "bitLength n = (if n \<le> 0 then 0 else 1 + bitLength (n div 2))"
  by pat_completeness auto
termination
  by (relation "measure nat") auto

declare bitLength.simps [simp del]

text \<open>\<open>floorLog2 q\<close> is the \<open>e\<close> with \<open>2^e \<le> q < 2^(e+1)\<close>, for \<open>q > 0\<close>.\<close>

definition floorLog2 :: "rat \<Rightarrow> int" where
  "floorLog2 q =
     (let e = bitLength (fst (quotient_of q)) - bitLength (snd (quotient_of q))
      in if 2 powi e \<le> q then e else e - 1)"

definition roundHalfEven :: "rat \<Rightarrow> int" where
  "roundHalfEven q =
     (let f = \<lfloor>q\<rfloor>; r = q - of_int f
      in if r < 1 / 2 then f else if 1 / 2 < r then f + 1 else if even f then f else f + 1)"

text \<open>Rounding of a real to binary64: to the nearest value, a tie to the even significand;
  subnormal below \<open>2^-1022\<close>; an infinity when the rounded value reaches \<open>2^1024\<close>, that
  is, when its \<open>floorLog2\<close> reaches 1024.\<close>

definition toDouble :: "rat \<Rightarrow> jsnum" where
  "toDouble q =
     (if q = 0 then Fin 0
      else
        let a = \<bar>q\<bar>;
            e = max (floorLog2 a) (- 1022);
            ulp = 2 powi (e - 52);
            v = of_int (roundHalfEven (a / ulp)) * ulp
        in if 0 < v \<and> 1024 \<le> floorLog2 v then (if q < 0 then NegInfinity else PosInfinity)
           else Fin (if q < 0 then - v else v))"

text \<open>The exponent part of a decimal literal (\<^verbatim>\<open>e\<close> or \<^verbatim>\<open>E\<close>, an optional sign,
  digits); 0 when the text does not start with a complete one.\<close>

definition exponentPart :: "string \<Rightarrow> int" where
  "exponentPart r =
     (if r \<noteq> [] \<and> (hd r = CHR ''e'' \<or> hd r = CHR ''E'') then
        let r1 = tl r;
            neg = (r1 \<noteq> [] \<and> hd r1 = CHR ''-'');
            r2 = (if r1 \<noteq> [] \<and> (hd r1 = CHR ''-'' \<or> hd r1 = CHR ''+'') then tl r1 else r1);
            ds = takeWhile isDigit r2
        in if ds = [] then 0 else if neg then - digitsToInt ds else digitsToInt ds
      else 0)"

text \<open>\<^verbatim>\<open>parseFloat\<close>: leading white space, then the longest prefix that is a decimal
  literal (a sign; \<^verbatim>\<open>Infinity\<close>, or digits with an optional fraction and exponent);
  what follows is ignored; NaN when there is no such prefix.\<close>

definition parseFloat :: "string \<Rightarrow> jsnum" where
  "parseFloat s =
     (let t = trimStart s;
          neg = (t \<noteq> [] \<and> hd t = CHR ''-'');
          u = (if t \<noteq> [] \<and> (hd t = CHR ''-'' \<or> hd t = CHR ''+'') then tl t else t)
      in if startsWith ''Infinity'' u then (if neg then NegInfinity else PosInfinity)
         else
           let ip = takeWhile isDigit u;
               r1 = dropWhile isDigit u;
               hasDot = (r1 \<noteq> [] \<and> hd r1 = CHR ''.'');
               fp = (if hasDot then takeWhile isDigit (tl r1) else []);
               r2 = (if hasDot then dropWhile isDigit (tl r1) else r1)
           in if ip = [] \<and> fp = [] then NaN
              else
                let q = of_int (digitsToInt (ip @ fp)) * 10 powi (exponentPart r2 - int (length fp))
                in toDouble (if neg then - q else q))"

text \<open>\<^verbatim>\<open>x.toFixed(2)\<close>: the integer nearest to \<open>100 * x\<close> (the larger one on a tie),
  printed with a point before its last two digits.\<close>

definition toFixed2 :: "host \<Rightarrow> jsnum \<Rightarrow> string" where
  "toFixed2 h x =
     (case x of
        NaN \<Rightarrow> ''NaN''
      | PosInfinity \<Rightarrow> ''Infinity''
      | NegInfinity \<Rightarrow> ''-Infinity''
      | Fin q \<Rightarrow>
          (if q < 0 then ''-'' else []) @
          (if 10 ^ 21 \<le> \<bar>q\<bar> then numberText h \<bar>q\<bar>
           else
             let m = natToString \<lfloor>\<bar>q\<bar> * 100 + 1 / 2\<rfloor>;
                 m' = replicate (3 - length m) CHR ''0'' @ m
             in take (length m' - 2) m' @ ''.'' @ drop (length m' - 2) m'))"

text \<open>\<^verbatim>\<open>formatIsoDate\<close>.\<close>

definition formatIsoDate :: "int \<Rightarrow> int \<Rightarrow> int \<Rightarrow> string" where
  "formatIsoDate year monthZeroBased day =
     intToString year @ ''-'' @ padStart2 (intToString (monthZeroBased + 1)) @ ''-'' @
     padStart2 (intToString day)"

text \<open>\<^verbatim>\<open>formatIsoDate\<close> of the year, month and day of the month of a day number, as the
  source calls it on the three getters of a date.\<close>

definition dayToIso :: "int \<Rightarrow> string" where
  "dayToIso d = formatIsoDate (yearFromDay d) (monthFromDay d) (dateFromDay d)"

text \<open>
  The product and the sum of two numbers: the exact result rounded to binary64, with the
  rules of IEEE 754 for NaN and the infinities.
\<close>

definition jsSign :: "jsnum \<Rightarrow> int" where
  "jsSign x =
     (case x of
        NaN \<Rightarrow> 0 | PosInfinity \<Rightarrow> 1 | NegInfinity \<Rightarrow> - 1
      | Fin q \<Rightarrow> if q < 0 then - 1 else if q = 0 then 0 else 1)"

definition jsMul :: "jsnum \<Rightarrow> jsnum \<Rightarrow> jsnum" where
  "jsMul x y =
     (if x = NaN \<or> y = NaN then NaN
      else case (x, y) of
        (Fin a, Fin b) \<Rightarrow> toDouble (a * b)
      | _ \<Rightarrow> if jsSign x * jsSign y = 0 then NaN
             else if jsSign x * jsSign y < 0 then NegInfinity else PosInfinity)"

definition jsAdd :: "jsnum \<Rightarrow> jsnum \<Rightarrow> jsnum" where
  "jsAdd x y =
     (if x = NaN \<or> y = NaN then NaN
      else case (x, y) of
        (Fin a, Fin b) \<Rightarrow> toDouble (a + b)
      | (Fin a, _) \<Rightarrow> y
      | (_, Fin b) \<Rightarrow> x
      | _ \<Rightarrow> if x = y then x else NaN)"

text \<open>\<^verbatim>\<open>x > 0\<close>.\<close>

definition jsPositive :: "jsnum \<Rightarrow> bool" where
  "jsPositive x = (case x of Fin q \<Rightarrow> 0 < q | PosInfinity \<Rightarrow> True | _ \<Rightarrow> False)"

text \<open>
  The time value of \<^verbatim>\<open>new Date(x)\<close> for a number \<open>x\<close> (ECMAScript's TimeClip): \<open>x\<close>
  without its fraction when it is finite and at most \<open>8.64 * 10^15\<close> milliseconds either
  side of 1970, and otherwise none: the date is the invalid date.
\<close>

definition timeClip :: "jsnum \<Rightarrow> int option" where
  "timeClip x =
     (case x of
        Fin v \<Rightarrow> if \<bar>v\<bar> \<le> 8640000000000000 then Some (if 0 \<le> v then \<lfloor>v\<rfloor> else - \<lfloor>- v\<rfloor>)
                 else None
      | _ \<Rightarrow> None)"

text \<open>\<^verbatim>\<open>excelSerialToIso\<close>. All the fields of the invalid date are NaN and print as
  \<^verbatim>\<open>NaN\<close>.\<close>

definition excelSerialToIso :: "jsnum \<Rightarrow> string" where
  "excelSerialToIso serial =
     (let originUtcMs = Fin (of_int (makeDay 1899 11 30 * MS_PER_DAY));
          dateUtcMs = jsAdd originUtcMs (jsMul serial (Fin (of_int MS_PER_DAY)))
      in case timeClip dateUtcMs of
           Some t \<Rightarrow> dayToIso (t div MS_PER_DAY)
         | None \<Rightarrow> ''NaN-NaN-NaN'')"

section \<open>Dates in headers\<close>

text \<open>The month table of \<^verbatim>\<open>parseWeekRange\<close> and \<^verbatim>\<open>parseDate\<close>.\<close>

definition monthMap :: "string \<Rightarrow> int option" where
  "monthMap =
     map_of [(''jan'', 0), (''feb'', 1), (''mar'', 2), (''apr'', 3), (''may'', 4), (''jun'', 5),
             (''jul'', 6), (''aug'', 7), (''sep'', 8), (''oct'', 9), (''okt'', 9), (''nov'', 10),
             (''dec'', 11)]"

text \<open>
  The pieces of the source's regular expressions, each returning what it matched and the
  rest of the text. The month alternative
  \<^verbatim>\<open>(Jan|Feb|...|Dec|jan|...|sep|okt|nov|dec)\<close> under the flag \<^verbatim>\<open>i\<close> matches three
  letters that are, in lower case, one of thirteen words. \<^verbatim>\<open>(\d{1,2})\<close> is followed in
  every pattern by white space, a dash or the end, so it matches a whole run of one or two
  digits or nothing.
\<close>

definition monthWords :: "string list" where
  "monthWords = [''jan'', ''feb'', ''mar'', ''apr'', ''may'', ''jun'', ''jul'', ''aug'', ''sep'',
                 ''oct'', ''nov'', ''dec'', ''okt'']"

definition matchMonth :: "string \<Rightarrow> (string \<times> string) option" where
  "matchMonth s =
     (if 3 \<le> length s \<and> toLowerCase (take 3 s) \<in> set monthWords
      then Some (take 3 s, drop 3 s) else None)"

definition matchDay :: "string \<Rightarrow> (string \<times> string) option" where
  "matchDay s =
     (let ds = takeWhile isDigit s
      in if length ds = 1 \<or> length ds = 2 then Some (ds, dropWhile isDigit s) else None)"

text \<open>\<^verbatim>\<open>\s+\<close>: the rest after at least one white-space character.\<close>

definition matchSpaces :: "string \<Rightarrow> string option" where
  "matchSpaces s = (if wsLen s = 0 then None else Some (trimStart s))"

text \<open>\<^verbatim>\<open>\s*[-\<dots>]\s*\<close> with a hyphen, an en dash or an em dash.\<close>

definition matchDash :: "string \<Rightarrow> string option" where
  "matchDash s =
     (let r = trimStart s
      in if dashLen r = 0 then None else Some (trimStart (drop (dashLen r) r)))"

text \<open>\<^verbatim>\<open>^(Mon)\s+(\d{1,2})\<close>, the common start of the three month patterns.\<close>

definition matchMonthDay :: "string \<Rightarrow> (string \<times> string \<times> string) option" where
  "matchMonthDay s =
     (case matchMonth s of
        None \<Rightarrow> None
      | Some (mon, r1) \<Rightarrow>
          (case matchSpaces r1 of
             None \<Rightarrow> None
           | Some r2 \<Rightarrow>
               (case matchDay r2 of
                  None \<Rightarrow> None
                | Some (day, r3) \<Rightarrow> Some (mon, day, r3))))"

text \<open>\<^verbatim>\<open>rangePattern1\<close>: month, day, dash, month, day.\<close>

definition rangePattern1 :: "string \<Rightarrow> (string \<times> string \<times> string \<times> string) option" where
  "rangePattern1 s =
     (case matchMonthDay s of
        None \<Rightarrow> None
      | Some (m1, d1, r1) \<Rightarrow>
          (case matchDash r1 of
             None \<Rightarrow> None
           | Some r2 \<Rightarrow>
               (case matchMonthDay r2 of
                  None \<Rightarrow> None
                | Some (m2, d2, r3) \<Rightarrow> if r3 = [] then Some (m1, d1, m2, d2) else None)))"

text \<open>\<^verbatim>\<open>rangePattern2\<close>: month, day, dash, day.\<close>

definition rangePattern2 :: "string \<Rightarrow> (string \<times> string \<times> string) option" where
  "rangePattern2 s =
     (case matchMonthDay s of
        None \<Rightarrow> None
      | Some (m1, d1, r1) \<Rightarrow>
          (case matchDash r1 of
             None \<Rightarrow> None
           | Some r2 \<Rightarrow>
               (case matchDay r2 of
                  None \<Rightarrow> None
                | Some (d2, r3) \<Rightarrow> if r3 = [] then Some (m1, d1, d2) else None)))"

text \<open>The normalisation both \<^verbatim>\<open>findDateIndices\<close> and \<^verbatim>\<open>parseWeekRange\<close> apply:
  trim, collapse white space, turn the long dashes into hyphens.\<close>

definition normalizeHeader :: "string \<Rightarrow> string" where
  "normalizeHeader s = normDashes (collapseWs (trim s))"

text \<open>
  The start and end of a week range, as \<^verbatim>\<open>(startMonth, startDay, endMonth, endDay)\<close>;
  \<open>None\<close> where the source returns null before building dates.
\<close>

definition weekRangeEnds :: "string \<Rightarrow> (int \<times> int \<times> int \<times> int) option" where
  "weekRangeEnds rangeStr =
     (let trimmed = normalizeHeader rangeStr
      in case rangePattern1 trimmed of
           Some (m1, d1, m2, d2) \<Rightarrow>
             (case (monthMap (toLowerCase m1), monthMap (toLowerCase m2)) of
                (Some startMonth, Some endMonth) \<Rightarrow>
                  Some (startMonth, digitsToInt d1, endMonth, digitsToInt d2)
              | _ \<Rightarrow> None)
         | None \<Rightarrow>
             (case rangePattern2 trimmed of
                Some (m1, d1, d2) \<Rightarrow>
                  (case monthMap (toLowerCase m1) of
                     Some startMonth \<Rightarrow> Some (startMonth, digitsToInt d1, startMonth, digitsToInt d2)
                   | None \<Rightarrow> None)
              | None \<Rightarrow> None))"

text \<open>
  The loop of \<^verbatim>\<open>parseWeekRange\<close>, on the times of its dates:
  \<^verbatim>\<open>for (let d = new Date(start); d <= end; d.setDate(d.getDate() + 1))\<close>, pushing
  \<^verbatim>\<open>formatIsoDate(d.getFullYear(), d.getMonth(), d.getDate())\<close>. Setting the date to the
  next day of the month gives the local time one day on (lemma \<open>setDate_step\<close>), which is
  a later time on every host; so the loop ends.
\<close>

lemma monthFromDay_range: "0 \<le> monthFromDay d \<and> monthFromDay d \<le> 11"
  by (simp add: monthFromDay_def Let_def)

lemma setDate_next:
  "makeDay (yearFromDay d) (monthFromDay d) (dateFromDay d + 1) = d + 1"
proof -
  have "monthFromDay d div 12 = 0" "monthFromDay d mod 12 = monthFromDay d"
    using monthFromDay_range [of d] by simp_all
  then show ?thesis
    by (simp add: makeDay_def dateFromDay_def dayWithinYear_def)
qed

lemma setDate_step:
  "setDate h t (getDate h t + 1) = utcTime h (localTime h t + MS_PER_DAY)"
proof -
  have "(localTime h t div MS_PER_DAY + 1) * MS_PER_DAY + localTime h t mod MS_PER_DAY =
      localTime h t + MS_PER_DAY"
    by (simp add: algebra_simps)
  then show ?thesis
    by (simp add: setDate_def getDate_def Let_def setDate_next)
qed

lemma zone_progress: "t < utcTime h (localTime h t + MS_PER_DAY)"
proof -
  have "offsetAt (zone h) (t + offsetAt (zone h) t True + MS_PER_DAY) False
      < offsetAt (zone h) t True + MS_PER_DAY"
    using Rep_zone [of "zone h"] by (simp add: offsetAt.rep_eq)
  then show ?thesis
    by (simp add: utcTime_def localTime_def localTZA_def)
qed

function weekLoop :: "host \<Rightarrow> int \<Rightarrow> int \<Rightarrow> string list" where
  "weekLoop h d e =
     (if d \<le> e
      then formatIsoDate (getFullYear h d) (getMonth h d) (getDate h d) #
           weekLoop h (setDate h d (getDate h d + 1)) e
      else [])"
  by pat_completeness auto
termination
proof (relation "measure (\<lambda>(h, d, e). nat (e + 1 - d))")
  show "wf (measure (\<lambda>(h, d, e). nat (e + 1 - d)))"
    by simp
next
  fix h :: host and d e :: int
  assume "d \<le> e"
  then show "((h, setDate h d (getDate h d + 1), e), h, d, e)
      \<in> measure (\<lambda>(h, d, e). nat (e + 1 - d))"
    using zone_progress [of d h] by (simp add: setDate_step)
qed

declare weekLoop.simps [simp del]

definition parseWeekRange :: "host \<Rightarrow> string \<Rightarrow> string list option" where
  "parseWeekRange h rangeStr =
     (case weekRangeEnds rangeStr of
        None \<Rightarrow> None
      | Some (startMonth, startDay, endMonth, endDay) \<Rightarrow>
          (let year = 2025;
               start = newDate h year startMonth startDay;
               end' = newDate h year endMonth endDay;
               dates = weekLoop h start end'
           in if dates \<noteq> [] then Some dates else None))"

text \<open>\<^verbatim>\<open>/^\d{4}-\d{2}-\d{2}$/\<close>.\<close>

definition isoShape :: "string \<Rightarrow> bool" where
  "isoShape s =
     (length s = 10 \<and> allDigits (take 4 s) \<and> s ! 4 = CHR ''-'' \<and>
      allDigits (take 2 (drop 5 s)) \<and> s ! 7 = CHR ''-'' \<and> allDigits (drop 8 s))"

text \<open>\<^verbatim>\<open>/^\d{2}\/\d{2}\/\d{4}$/\<close>.\<close>

definition slashShape :: "string \<Rightarrow> bool" where
  "slashShape s =
     (length s = 10 \<and> allDigits (take 2 s) \<and> s ! 2 = CHR ''/'' \<and>
      allDigits (take 2 (drop 3 s)) \<and> s ! 5 = CHR ''/'' \<and> allDigits (drop 6 s))"

text \<open>\<^verbatim>\<open>/^\d+$/\<close>.\<close>

definition digitsShape :: "string \<Rightarrow> bool" where
  "digitsShape s = (s \<noteq> [] \<and> allDigits s)"

text \<open>\<^verbatim>\<open>/^(Mon)\s+(\d{1,2})$/i\<close>, with the month and the day it captures.\<close>

definition monthNameMatch :: "string \<Rightarrow> (string \<times> string) option" where
  "monthNameMatch s =
     (case matchMonthDay s of
        None \<Rightarrow> None
      | Some (mon, day, r) \<Rightarrow> if r = [] then Some (mon, day) else None)"

definition isValidDateHeader :: "host \<Rightarrow> string \<Rightarrow> bool" where
  "isValidDateHeader h header =
     (if header = [] then False
      else
        let normalized = normalizeHeader header
        in if parseWeekRange h normalized \<noteq> None then True
           else list_ex (\<lambda>format. format normalized)
                  [isoShape, slashShape, slashShape, digitsShape,
                   (\<lambda>s. monthNameMatch s \<noteq> None)])"

section \<open>The Date Resolver\<close>

text \<open>
  \<^verbatim>\<open>new Date(`${year}-${mm}-${dd}`)\<close>, on the numbers the three digit groups denote (the
  source pads month and day to two digits, so the text has the date-only ISO form, which
  is read as UTC): the time of the date, or \<open>None\<close> for the invalid date.
\<close>

definition dateFromIso :: "host \<Rightarrow> int \<Rightarrow> int \<Rightarrow> int \<Rightarrow> int option" where
  "dateFromIso h y m d =
     (if 1 \<le> m \<and> m \<le> 12 \<and> 1 \<le> d \<and> d \<le> isoDayLimit h y m
      then Some (makeDay y (m - 1) d * MS_PER_DAY) else None)"

definition padZeros :: "nat \<Rightarrow> string \<Rightarrow> string" where
  "padZeros n s = replicate (n - length s) CHR ''0'' @ s"

text \<open>\<^verbatim>\<open>toISOString().split('T')[0]\<close>: the UTC date; a year outside 0 to 9999 is written
  with a sign and six digits.\<close>

definition isoDatePart :: "int \<Rightarrow> string" where
  "isoDatePart t =
     (let d = t div MS_PER_DAY; y = yearFromDay d
      in (if 0 \<le> y \<and> y \<le> 9999 then padZeros 4 (natToString y)
          else (if y < 0 then ''-'' else ''+'') @ padZeros 6 (natToString \<bar>y\<bar>)) @
         ''-'' @ padStart2 (intToString (monthFromDay d + 1)) @
         ''-'' @ padStart2 (intToString (dateFromDay d)))"

text \<open>\<^verbatim>\<open>/^\d{1,2}\/\d{1,2}\/\d{4}$/\<close> and \<^verbatim>\<open>split('/')\<close>: the three digit groups.\<close>

definition slashParts :: "string \<Rightarrow> (string \<times> string \<times> string) option" where
  "slashParts s =
     (case splitOn (CHR ''/'') s of
        [a, b, year] \<Rightarrow>
          if allDigits a \<and> (length a = 1 \<or> length a = 2) \<and>
             allDigits b \<and> (length b = 1 \<or> length b = 2) \<and>
             allDigits year \<and> length year = 4
          then Some (a, b, year) else None
      | _ \<Rightarrow> None)"

text \<open>
  One of the two attempts of the slash rule, for the year, month and day given:
  \<^verbatim>\<open>!isNaN(x.getTime()) && x.getFullYear() == parseInt(year)\<close> and then
  \<^verbatim>\<open>x.toISOString().split('T')[0]\<close>; \<open>None\<close> when the test fails.
\<close>

definition composedDate :: "host \<Rightarrow> int \<Rightarrow> int \<Rightarrow> int \<Rightarrow> string option" where
  "composedDate h y m d =
     (case dateFromIso h y m d of
        None \<Rightarrow> None
      | Some t \<Rightarrow> if getFullYear h t = y then Some (isoDatePart t) else None)"

text \<open>The slash rule of \<^verbatim>\<open>parseDate\<close>, month first and then day first; \<open>None\<close> where
  the source falls through to the rules below it.\<close>

definition slashDate :: "host \<Rightarrow> string \<Rightarrow> string option" where
  "slashDate h trimmed =
     (case slashParts trimmed of
        None \<Rightarrow> None
      | Some (a, b, year) \<Rightarrow>
          (case composedDate h (digitsToInt year) (digitsToInt a) (digitsToInt b) of
             Some mmdd \<Rightarrow> Some mmdd
           | None \<Rightarrow> composedDate h (digitsToInt year) (digitsToInt b) (digitsToInt a)))"

text \<open>The month-name rule of \<^verbatim>\<open>parseDate\<close>.\<close>

definition monthNameDate :: "string \<Rightarrow> string option" where
  "monthNameDate trimmed =
     (case monthNameMatch trimmed of
        None \<Rightarrow> None
      | Some (monthName, day) \<Rightarrow>
          (case monthMap (toLowerCase monthName) of
             None \<Rightarrow> None
           | Some monthNum \<Rightarrow> Some (formatIsoDate 2025 monthNum (digitsToInt day))))"

text \<open>The serial rule of \<^verbatim>\<open>parseDate\<close>. \<^verbatim>\<open>parseInt\<close> of a run of digits is the
  number they denote, rounded to binary64 (past twenty digits an engine may round the
  digits first; such a number is far beyond the days a \<^verbatim>\<open>Date\<close> holds either way).\<close>

definition serialDate :: "string \<Rightarrow> string option" where
  "serialDate trimmed =
     (if digitsShape trimmed then
        let serialNumber = toDouble (of_int (digitsToInt trimmed))
        in if jsPositive serialNumber then Some (excelSerialToIso serialNumber) else None
      else None)"

definition parseDate :: "host \<Rightarrow> string \<Rightarrow> string option" where
  "parseDate h dateStr =
     (if dateStr = [] then None
      else
        let trimmed = trim dateStr
        in if isoShape trimmed then Some trimmed
           else
             (case slashDate h trimmed of
                Some r \<Rightarrow> Some r
              | None \<Rightarrow>
                  (case monthNameDate trimmed of
                     Some r \<Rightarrow> Some r
                   | None \<Rightarrow> serialDate trimmed)))"

section \<open>The Amount Resolver\<close>

text \<open>\<^verbatim>\<open>parseAmount\<close>; the argument is \<open>None\<close> for a cell the row does not have
  (\<^verbatim>\<open>undefined\<close>), the result is \<open>None\<close> for null.\<close>

definition parseAmount :: "string option \<Rightarrow> jsnum option" where
  "parseAmount amountStr =
     (case amountStr of
        None \<Rightarrow> None
      | Some s \<Rightarrow>
          if s = [] then None
          else
            let trimmed = trim s
            in if trimmed = [] then None
               else
                 let normalized = replaceFirst (CHR '','') (CHR ''.'') trimmed;
                     parsed = parseFloat normalized
                 in if parsed = NaN then None else Some parsed)"

definition getCategoryLeaf :: "string \<Rightarrow> string" where
  "getCategoryLeaf category = trim (last (splitOn (CHR ''>'') category))"

section \<open>The Table Parser\<close>

text \<open>A raw cell: text, a number (finite, by its value), a truth value, or nothing
  (\<^verbatim>\<open>null\<close> or \<^verbatim>\<open>undefined\<close>).\<close>

datatype cell = CStr string | CNum rat | CBool bool | CNull

datatype parse_error = EmptyFile | MissingCategoryColumn | NoDateColumns | EmptyDataset

record parsedData =
  headers :: "string list"
  data :: "string list list"
  categoryIndex :: nat
  dateIndices :: "nat list"
  expandedDates :: "(nat \<times> string list) list"

text \<open>Whether a cell is truthy: not the empty text, not zero, not \<^verbatim>\<open>false\<close>, not
  nothing.\<close>

definition cellTruthy :: "cell \<Rightarrow> bool" where
  "cellTruthy c =
     (case c of CStr s \<Rightarrow> s \<noteq> [] | CNum q \<Rightarrow> q \<noteq> 0 | CBool b \<Rightarrow> b | CNull \<Rightarrow> False)"

text \<open>\<^verbatim>\<open>cell?.toString() || ''\<close>. An integer of magnitude below \<open>2^53\<close> prints as its
  decimal digits; the text of any other number is the host's.\<close>

definition cellToString :: "host \<Rightarrow> cell \<Rightarrow> string" where
  "cellToString h c =
     (case c of
        CStr s \<Rightarrow> s
      | CNum q \<Rightarrow> if of_int \<lfloor>q\<rfloor> = q \<and> \<bar>q\<bar> < 2 ^ 53 then intToString \<lfloor>q\<rfloor> else numberText h q
      | CBool b \<Rightarrow> if b then ''true'' else ''false''
      | CNull \<Rightarrow> [])"

text \<open>The conversion of one header cell in \<^verbatim>\<open>parseArrayData\<close>. \<^verbatim>\<open>iso.slice(0, 4)\<close> is the
  first four characters of the date, whatever the length of its year.\<close>

definition convertHeader :: "host \<Rightarrow> cell \<Rightarrow> string" where
  "convertHeader h c =
     (case c of
        CNum q \<Rightarrow>
          if cellTruthy c then
            (let iso = excelSerialToIso (Fin q)
             in case parseInt (take 4 iso) of
                  Some yr \<Rightarrow> if yr \<ge> 1900 \<and> yr \<le> 2100 then iso else cellToString h c
                | None \<Rightarrow> cellToString h c)
          else cellToString h c
      | _ \<Rightarrow> cellToString h c)"

text \<open>\<^verbatim>\<open>Array.prototype.findIndex\<close>; \<open>None\<close> is -1.\<close>

fun findIndex :: "('a \<Rightarrow> bool) \<Rightarrow> 'a list \<Rightarrow> nat option" where
  "findIndex P [] = None"
| "findIndex P (x # xs) = (if P x then Some 0 else map_option Suc (findIndex P xs))"

definition isCategoryHeader :: "string \<Rightarrow> bool" where
  "isCategoryHeader header = (header \<noteq> [] \<and> trim (toLowerCase header) = ''category'')"

definition findCategoryIndex :: "string list \<Rightarrow> nat option" where
  "findCategoryIndex hs = findIndex isCategoryHeader hs"

text \<open>
  The loop of \<^verbatim>\<open>findDateIndices\<close>: \<open>scanHeaders i hs\<close> scans the headers \<open>hs\<close> whose
  first one is column \<open>i\<close>. The source pushes the indices and sets the expansions as it
  goes; building both from the end gives them in the same order. The expansions are the
  entries of the source's \<^verbatim>\<open>Map\<close> in the order they were set, one for a column at most.
\<close>

fun scanHeaders :: "host \<Rightarrow> nat \<Rightarrow> string list \<Rightarrow> nat list \<times> (nat \<times> string list) list" where
  "scanHeaders h i [] = ([], [])"
| "scanHeaders h i (header # rest) =
     (if header = [] then scanHeaders h (Suc i) rest
      else
        let normalizedHeader = normalizeHeader header
        in if normalizedHeader = [] then scanHeaders h (Suc i) rest
           else if isValidDateHeader h normalizedHeader then
             (let (indices, expanded) = scanHeaders h (Suc i) rest
              in (i # indices,
                  case parseWeekRange h normalizedHeader of
                    Some weekRange \<Rightarrow> (i, weekRange) # expanded
                  | None \<Rightarrow> expanded))
           else ([], []))"

definition findDateIndices ::
  "host \<Rightarrow> string list \<Rightarrow> nat \<Rightarrow> nat list \<times> (nat \<times> string list) list" where
  "findDateIndices h hs ci = scanHeaders h (ci + 1) (drop (ci + 1) hs)"

text \<open>\<^verbatim>\<open>cell && cell.toString().trim() !== ''\<close>.\<close>

definition cellNonBlank :: "host \<Rightarrow> cell \<Rightarrow> bool" where
  "cellNonBlank h c = (cellTruthy c \<and> trim (cellToString h c) \<noteq> [])"

definition parseArrayData :: "host \<Rightarrow> cell list list \<Rightarrow> parse_error + parsedData" where
  "parseArrayData h grid =
     (case grid of
        [] \<Rightarrow> Inl EmptyFile
      | headerRow # rows \<Rightarrow>
          (let hs = map (convertHeader h) headerRow
           in case findCategoryIndex hs of
                None \<Rightarrow> Inl MissingCategoryColumn
              | Some ci \<Rightarrow>
                  (let (indices, expanded) = findDateIndices h hs ci
                   in if indices = [] then Inl NoDateColumns
                      else
                        let nonEmptyRows = filter (list_ex (cellNonBlank h)) rows
                        in if nonEmptyRows = [] then Inl EmptyDataset
                           else Inr \<lparr>headers = hs,
                                     data = map (map (cellToString h)) nonEmptyRows,
                                     categoryIndex = ci,
                                     dateIndices = indices,
                                     expandedDates = expanded\<rparr>)))"

section \<open>The Row Transformer\<close>

record transformOptions =
  currency :: string
  parentId :: string
  periodicity :: "string option"

record transformedRow =
  amount_currency :: string
  amount_stringValue :: string
  date :: string
  parent_id :: string
  parent_type :: string
  description :: string
  metadata_atlar_category :: string

text \<open>\<^verbatim>\<open>row[i]\<close>: \<open>None\<close> (\<^verbatim>\<open>undefined\<close>) outside the row.\<close>

definition cellAt :: "'a list \<Rightarrow> nat \<Rightarrow> 'a option" where
  "cellAt row i = (if i < length row then Some (row ! i) else None)"

definition makeRow :: "host \<Rightarrow> transformOptions \<Rightarrow> jsnum \<Rightarrow> string \<Rightarrow> string \<Rightarrow> transformedRow" where
  "makeRow h options parsedAmount d desc =
     \<lparr>amount_currency = currency options,
      amount_stringValue = toFixed2 h parsedAmount,
      date = d,
      parent_id = parentId options,
      parent_type = ''ENTITY'',
      description = desc,
      metadata_atlar_category = desc\<rparr>"

text \<open>The body of the inner loop of \<^verbatim>\<open>transformData\<close>: the records one row gives for one
  date column.\<close>

definition columnRecords ::
  "host \<Rightarrow> parsedData \<Rightarrow> transformOptions \<Rightarrow> string \<Rightarrow> string list \<Rightarrow> nat \<Rightarrow> transformedRow list" where
  "columnRecords h pd options desc row dateIndex =
     (case parseAmount (cellAt row dateIndex) of
        None \<Rightarrow> []
      | Some parsedAmount \<Rightarrow>
          (let single =
                 (case cellAt (headers pd) dateIndex of
                    None \<Rightarrow> []
                  | Some dateHeader \<Rightarrow>
                      (case parseDate h dateHeader of
                         None \<Rightarrow> []
                       | Some parsedDate \<Rightarrow>
                           if parsedDate = [] then []
                           else [makeRow h options parsedAmount parsedDate desc]))
           in case map_of (expandedDates pd) dateIndex of
                None \<Rightarrow> single
              | Some expandedDatesForColumn \<Rightarrow>
                  if expandedDatesForColumn \<noteq> []
                  then [makeRow h options parsedAmount (last expandedDatesForColumn) desc]
                  else single))"

text \<open>The body of the outer loop: the records of one row.\<close>

definition rowRecords :: "host \<Rightarrow> parsedData \<Rightarrow> transformOptions \<Rightarrow> string list \<Rightarrow> transformedRow list" where
  "rowRecords h pd options row =
     (case cellAt row (categoryIndex pd) of
        None \<Rightarrow> []
      | Some c \<Rightarrow>
          (let category = trim c
           in if category = [] then []
              else concat (map (columnRecords h pd options (getCategoryLeaf category) row)
                             (dateIndices pd))))"

definition transformData :: "host \<Rightarrow> parsedData \<Rightarrow> transformOptions \<Rightarrow> transformedRow list" where
  "transformData h pd options = concat (map (rowRecords h pd options) (data pd))"

section \<open>The serializers\<close>

text \<open>\<^verbatim>\<open>Object.keys(data[0])\<close> of a record the Row Transformer built.\<close>

definition recordKeys :: "string list" where
  "recordKeys = [''amount.currency'', ''amount.stringValue'', ''date'', ''parent.id'',
                 ''parent.type'', ''description'', ''metadata.atlar.category'']"

text \<open>\<^verbatim>\<open>parseDate(String(row['date'])) || String(row['date'])\<close>.\<close>

definition normalizedDate :: "host \<Rightarrow> transformedRow \<Rightarrow> string" where
  "normalizedDate h row =
     (case parseDate h (date row) of
        None \<Rightarrow> date row
      | Some d \<Rightarrow> if d = [] then date row else d)"

definition csvValues :: "host \<Rightarrow> transformedRow \<Rightarrow> string list" where
  "csvValues h row =
     [amount_currency row, amount_stringValue row, normalizedDate h row, parent_id row,
      parent_type row, description row, metadata_atlar_category row]"

definition generateCSV :: "host \<Rightarrow> transformedRow list \<Rightarrow> string" where
  "generateCSV h rows =
     (if rows = [] then []
      else joinWith [CHR 0x0A]
             (joinWith '','' recordKeys # map (\<lambda>row. joinWith '','' (csvValues h row)) rows))"

text \<open>The array of arrays \<^verbatim>\<open>generateExcel\<close> hands to the spreadsheet library (the
  library's container format is outside the model); no sheet for no records.\<close>

definition excelValues :: "transformedRow \<Rightarrow> string list" where
  "excelValues row =
     [amount_currency row, amount_stringValue row, date row, parent_id row,
      parent_type row, description row, metadata_atlar_category row]"


section \<open>Properties of the string functions\<close>

lemma startsWith_iff: "startsWith w s \<longleftrightarrow> take (length w) s = w"
  by (induction w s rule: startsWith.induct) auto

lemma stripLen_cases:
  "stripLen ws s = 0 \<or> (\<exists>w \<in> set ws. stripLen ws s = length w \<and> s = w @ drop (length w) s)"
proof (cases "find (\<lambda>w. startsWith w s) ws")
  case None
  then show ?thesis by (simp add: stripLen_def)
next
  case (Some w)
  then have "w \<in> set ws" "startsWith w s"
    by (auto simp: find_Some_iff)
  moreover from \<open>startsWith w s\<close> have "s = w @ drop (length w) s"
    by (metis append_take_drop_id startsWith_iff)
  ultimately show ?thesis using Some by (auto simp: stripLen_def)
qed

lemma stripAll_noop: "stripLen ws s = 0 \<Longrightarrow> stripAll ws s = s"
  by (simp add: stripAll.simps)

lemma stripAll_Nil [simp]: "stripAll ws [] = []"
  by (simp add: stripAll.simps)

lemma stripAll_step:
  "stripLen ws s \<noteq> 0 \<Longrightarrow> stripAll ws s = stripAll ws (drop (stripLen ws s) s)"
  by (cases "s = []") (simp_all add: stripAll.simps [of ws s])

text \<open>What \<open>stripAll\<close> removes are bytes of the sequences it strips.\<close>

lemma set_stripAll: "set s \<subseteq> set (stripAll ws s) \<union> set (concat ws)"
proof (induction ws s rule: stripAll.induct)
  case (1 ws s)
  show ?case
  proof (cases "stripLen ws s = 0 \<or> s = []")
    case True
    then show ?thesis by (auto simp: stripAll.simps [of ws s])
  next
    case False
    then obtain w where w: "w \<in> set ws" "stripLen ws s = length w" "s = w @ drop (length w) s"
      using stripLen_cases [of ws s] by auto
    have "set s = set w \<union> set (drop (length w) s)"
      using w(3) by (metis set_append)
    moreover have "set (drop (length w) s) \<subseteq> set (stripAll ws (drop (length w) s)) \<union> set (concat ws)"
      using "1.IH" False w(2) by simp
    moreover have "stripAll ws s = stripAll ws (drop (length w) s)"
      using False w(2) stripAll_step [of ws s] by simp
    moreover have "set w \<subseteq> set (concat ws)"
      using w(1) by auto
    ultimately show ?thesis by auto
  qed
qed

lemma set_stripAll_sub: "set (stripAll ws s) \<subseteq> set s"
proof (induction ws s rule: stripAll.induct)
  case (1 ws s)
  show ?case
  proof (cases "stripLen ws s = 0 \<or> s = []")
    case True
    then show ?thesis by (auto simp: stripAll.simps [of ws s])
  next
    case False
    then have "stripAll ws s = stripAll ws (drop (stripLen ws s) s)"
      using stripAll_step [of ws s] by simp
    with "1.IH" False show ?thesis
      by (auto dest: in_set_dropD)
  qed
qed

text \<open>The bytes that occur in white space.\<close>

definition wsBytes :: "char set" where
  "wsBytes = set (concat wsSeqs)"

lemma stripLen_other_head:
  "\<forall>w \<in> set ws. w \<noteq> [] \<and> hd w \<noteq> c \<Longrightarrow> stripLen ws (c # cs) = 0"
proof -
  assume a: "\<forall>w \<in> set ws. w \<noteq> [] \<and> hd w \<noteq> c"
  have "\<not> startsWith w (c # cs)" if "w \<in> set ws" for w
    using a that by (cases w) auto
  then have "find (\<lambda>w. startsWith w (c # cs)) ws = None"
    by (simp add: find_None_iff)
  then show ?thesis by (simp add: stripLen_def)
qed

lemma wsSeqs_heads: "\<forall>w \<in> set wsSeqs. w \<noteq> [] \<and> hd w \<in> wsBytes"
  by (simp add: wsSeqs_def wsBytes_def)

lemma wsSeqs_lasts: "\<forall>w \<in> set (map rev wsSeqs). w \<noteq> [] \<and> hd w \<in> wsBytes"
  by (simp add: wsSeqs_def wsBytes_def)

lemma wsLen_plain: "c \<notin> wsBytes \<Longrightarrow> wsLen (c # cs) = 0"
  unfolding wsLen_def using wsSeqs_heads by (intro stripLen_other_head) auto

lemma stripLen_rev_plain: "c \<notin> wsBytes \<Longrightarrow> stripLen (map rev wsSeqs) (c # cs) = 0"
  using wsSeqs_lasts by (intro stripLen_other_head) auto

lemma trimStart_plain: "c \<notin> wsBytes \<Longrightarrow> trimStart (c # cs) = c # cs"
  using wsLen_plain [of c cs] by (simp add: trimStart_def wsLen_def stripAll_noop)

lemma trimEnd_plain: "s \<noteq> [] \<Longrightarrow> last s \<notin> wsBytes \<Longrightarrow> trimEnd s = s"
proof -
  assume a: "s \<noteq> []" "last s \<notin> wsBytes"
  then obtain c cs where r: "rev s = c # cs" and c: "c = last s"
    by (metis last_rev list.exhaust_sel rev_is_Nil_conv rev_rev_ident hd_rev list.sel(1))
  have "stripLen (map rev wsSeqs) (c # cs) = 0"
    using a c by (simp add: stripLen_rev_plain)
  then have "stripLen (map rev wsSeqs) (rev s) = 0"
    by (simp only: r)
  then have "stripAll (map rev wsSeqs) (rev s) = rev s"
    by (rule stripAll_noop)
  then show ?thesis by (simp add: trimEnd_def)
qed

lemma trim_Nil [simp]: "trim [] = []"
  by (simp add: trim_def trimStart_def trimEnd_def)

lemma trim_plain: "s \<noteq> [] \<Longrightarrow> hd s \<notin> wsBytes \<Longrightarrow> last s \<notin> wsBytes \<Longrightarrow> trim s = s"
  by (cases s) (simp_all add: trim_def trimStart_plain trimEnd_plain)

lemma set_trimStart: "set s \<subseteq> set (trimStart s) \<union> wsBytes"
  using set_stripAll [of s wsSeqs] by (simp add: trimStart_def wsBytes_def)

lemma set_trimEnd: "set s \<subseteq> set (trimEnd s) \<union> wsBytes"
proof -
  have "set (rev s) \<subseteq> set (stripAll (map rev wsSeqs) (rev s)) \<union> set (concat (map rev wsSeqs))"
    by (rule set_stripAll)
  moreover have "set (concat (map rev wsSeqs)) = wsBytes"
    by (auto simp: wsBytes_def)
  ultimately show ?thesis by (simp add: trimEnd_def)
qed

text \<open>A byte that is no white space survives \<open>trim\<close>, and \<open>trim\<close> adds none.\<close>

lemma set_trim: "c \<in> set s \<Longrightarrow> c \<notin> wsBytes \<Longrightarrow> c \<in> set (trim s)"
  using set_trimStart [of s] set_trimEnd [of "trimStart s"] by (auto simp: trim_def)

lemma set_trim_sub: "set (trim s) \<subseteq> set s"
proof -
  have "set (trimStart s) \<subseteq> set s"
    by (simp add: trimStart_def set_stripAll_sub)
  moreover have "set (trimEnd t) \<subseteq> set t" for t
    using set_stripAll_sub [of "map rev wsSeqs" "rev t"] by (simp add: trimEnd_def)
  ultimately show ?thesis unfolding trim_def by blast
qed

text \<open>A text made of white space only is trimmed to nothing.\<close>

lemma wsSeqs_prefix_free:
  "list_all (\<lambda>a. list_all (\<lambda>b. (take (length a) b = a \<or> take (length b) a = b) \<longrightarrow> a = b) wsSeqs)
     wsSeqs"
  by code_simp

lemma stripLen_ws_prefix: "w \<in> set wsSeqs \<Longrightarrow> stripLen wsSeqs (w @ r) = length w"
proof -
  assume w: "w \<in> set wsSeqs"
  have "startsWith w (w @ r)" by (simp add: startsWith_iff)
  with w obtain a where a: "find (\<lambda>x. startsWith x (w @ r)) wsSeqs = Some a"
    by (cases "find (\<lambda>x. startsWith x (w @ r)) wsSeqs") (auto simp: find_None_iff)
  then have m: "a \<in> set wsSeqs" and "startsWith a (w @ r)"
    by (auto simp: find_Some_iff)
  then have t: "take (length a) (w @ r) = a" by (simp add: startsWith_iff)
  have "take (length a) w = a \<or> take (length w) a = w"
  proof (cases "length a \<le> length w")
    case True
    with t show ?thesis by simp
  next
    case False
    with t have "a = w @ take (length a - length w) r" by simp
    then have "take (length w) a = take (length w) (w @ take (length a - length w) r)" by simp
    then show ?thesis by simp
  qed
  with m w have "a = w"
    using wsSeqs_prefix_free by (auto simp: list_all_iff)
  with a show ?thesis by (simp add: stripLen_def)
qed

lemma trimStart_ws_only: "set ws \<subseteq> set wsSeqs \<Longrightarrow> trimStart (concat ws) = []"
proof (induction ws)
  case Nil
  then show ?case by (simp add: trimStart_def)
next
  case (Cons w ws)
  then have w: "w \<in> set wsSeqs" by simp
  then have "w \<noteq> []" by (auto simp: wsSeqs_def)
  then have "stripLen wsSeqs (w @ concat ws) \<noteq> 0"
    using stripLen_ws_prefix [OF w, of "concat ws"] by simp
  then have "stripAll wsSeqs (w @ concat ws) = stripAll wsSeqs (concat ws)"
    using stripAll_step [of wsSeqs "w @ concat ws"] stripLen_ws_prefix [OF w, of "concat ws"]
    by simp
  with Cons show ?case by (simp add: trimStart_def)
qed

lemma trim_ws_only: "set ws \<subseteq> set wsSeqs \<Longrightarrow> trim (concat ws) = []"
  by (simp add: trim_def trimStart_ws_only trimEnd_def)

section \<open>Properties of the header scan\<close>

lemma normalizeHeader_Nil [simp]: "normalizeHeader [] = []"
  by (simp add: normalizeHeader_def collapseWs_def)

text \<open>The scan, told in one sentence: of the columns up to the first terminator, the
  date-like ones. A column is blank when its normalised header is empty, date-like when
  that header is not empty and valid, and a terminator when it is not empty and not valid.\<close>

lemma scanHeaders_indices:
  "fst (scanHeaders h i hs) =
     map fst (filter (\<lambda>p. normalizeHeader (snd p) \<noteq> [])
       (takeWhile (\<lambda>p. normalizeHeader (snd p) = [] \<or> isValidDateHeader h (normalizeHeader (snd p)))
          (enumerate i hs)))"
proof (induction hs arbitrary: i)
  case Nil
  then show ?case by simp
next
  case (Cons x xs)
  show ?case
    using Cons.IH [of "Suc i"]
    by (simp add: Let_def case_prod_unfold split: option.splits)
qed

lemma scanHeaders_lower: "j \<in> set (fst (scanHeaders h i hs)) \<Longrightarrow> i \<le> j \<and> j < i + length hs"
proof -
  assume "j \<in> set (fst (scanHeaders h i hs))"
  then obtain x where "(j, x) \<in> set (enumerate i hs)"
    unfolding scanHeaders_indices by (auto dest: set_takeWhileD)
  then show ?thesis by (auto simp: in_set_enumerate_eq)
qed

text \<open>The expansions the scan installs: for a date column, what \<^verbatim>\<open>parseWeekRange\<close> gives
  for its normalised header; nothing for any other column.\<close>

lemma scanHeaders_expanded:
  "map_of (snd (scanHeaders h i hs)) j =
     (if j \<in> set (fst (scanHeaders h i hs)) then parseWeekRange h (normalizeHeader (hs ! (j - i)))
      else None)"
proof (induction hs arbitrary: i)
  case Nil
  then show ?case by simp
next
  case (Cons x xs)
  let ?rest = "scanHeaders h (Suc i) xs"
  have later: "k \<in> set (fst ?rest) \<Longrightarrow> Suc i \<le> k" for k
    using scanHeaders_lower [of k h "Suc i" xs] by simp
  have idx: "j \<in> set (fst ?rest) \<Longrightarrow> (x # xs) ! (j - i) = xs ! (j - Suc i)"
    using later [of j] by (simp add: Suc_diff_le)
  have rest: "map_of (snd ?rest) j =
      (if j \<in> set (fst ?rest) then parseWeekRange h (normalizeHeader ((x # xs) ! (j - i))) else None)"
    using Cons.IH [of "Suc i"] idx by simp
  consider (blank) "x = [] \<or> normalizeHeader x = []"
    | (valid) "x \<noteq> []" "normalizeHeader x \<noteq> []" "isValidDateHeader h (normalizeHeader x)"
    | (stop) "x \<noteq> []" "normalizeHeader x \<noteq> []" "\<not> isValidDateHeader h (normalizeHeader x)"
    by blast
  then show ?case
  proof cases
    case blank
    then have "scanHeaders h i (x # xs) = ?rest" by auto
    with rest show ?thesis by simp
  next
    case valid
    then have f: "fst (scanHeaders h i (x # xs)) = i # fst ?rest"
      and s: "snd (scanHeaders h i (x # xs)) =
               (case parseWeekRange h (normalizeHeader x) of
                  None \<Rightarrow> snd ?rest | Some w \<Rightarrow> (i, w) # snd ?rest)"
      by (simp_all add: Let_def case_prod_unfold)
    show ?thesis
    proof (cases "j = i")
      case True
      have "i \<notin> set (fst ?rest)" using later [of i] by auto
      then have "map_of (snd ?rest) i = None"
        using Cons.IH [of "Suc i"] True by simp
      then show ?thesis
        unfolding f s using True by (simp split: option.splits)
    next
      case False
      then have "map_of (snd (scanHeaders h i (x # xs))) j = map_of (snd ?rest) j"
        unfolding s by (simp split: option.splits)
      with rest False show ?thesis unfolding f by simp
    qed
  next
    case stop
    then have "scanHeaders h i (x # xs) = ([], [])" by simp
    then show ?thesis by simp
  qed
qed

text \<open>What a successful parse says of its result.\<close>

lemma parseArrayData_Inr:
  assumes "parseArrayData h grid = Inr pd"
  obtains headerRow rows where "grid = headerRow # rows"
    and "headers pd = map (convertHeader h) headerRow"
    and "findCategoryIndex (headers pd) = Some (categoryIndex pd)"
    and "findDateIndices h (headers pd) (categoryIndex pd) = (dateIndices pd, expandedDates pd)"
    and "dateIndices pd \<noteq> []"
    and "data pd = map (map (cellToString h)) (filter (list_ex (cellNonBlank h)) rows)"
    and "data pd \<noteq> []"
  using assms
  by (cases grid; cases "findCategoryIndex (map (convertHeader h) (hd grid))")
     (auto simp: parseArrayData_def Let_def split: prod.splits if_splits)

lemma findDateIndices_expanded:
  "map_of (snd (findDateIndices h hs c)) j =
     (if j \<in> set (fst (findDateIndices h hs c)) then parseWeekRange h (normalizeHeader (hs ! j))
      else None)"
proof (cases "j \<in> set (fst (findDateIndices h hs c))")
  case True
  then have "c + 1 \<le> j" "j < c + 1 + length (drop (c + 1) hs)"
    using scanHeaders_lower [of j h "c + 1" "drop (c + 1) hs"] by (simp_all add: findDateIndices_def)
  then have "drop (c + 1) hs ! (j - (c + 1)) = hs ! j"
    by simp
  then show ?thesis
    using True scanHeaders_expanded [of h "c + 1" "drop (c + 1) hs" j]
    by (simp add: findDateIndices_def)
next
  case False
  then show ?thesis
    using scanHeaders_expanded [of h "c + 1" "drop (c + 1) hs" j]
    by (simp add: findDateIndices_def)
qed

lemma parse_expansions:
  assumes "parseArrayData h grid = Inr pd"
  shows "map_of (expandedDates pd) j =
     (if j \<in> set (dateIndices pd) then parseWeekRange h (normalizeHeader (headers pd ! j)) else None)"
proof -
  from assms have "findDateIndices h (headers pd) (categoryIndex pd) = (dateIndices pd, expandedDates pd)"
    by (rule parseArrayData_Inr)
  then have "fst (findDateIndices h (headers pd) (categoryIndex pd)) = dateIndices pd"
    and "snd (findDateIndices h (headers pd) (categoryIndex pd)) = expandedDates pd"
    by simp_all
  then show ?thesis
    using findDateIndices_expanded [of h "headers pd" "categoryIndex pd" j] by simp
qed

subsection \<open>The loop of the week range\<close>

text \<open>Every date of an expansion is the date of a day of the calendar.\<close>

lemma weekLoop_days: "x \<in> set (weekLoop h d e) \<Longrightarrow> \<exists>k. x = dayToIso k"
proof (induction h d e rule: weekLoop.induct)
  case (1 h d e)
  show ?case
  proof (cases "d \<le> e")
    case True
    have "formatIsoDate (getFullYear h d) (getMonth h d) (getDate h d) =
        dayToIso (localTime h d div MS_PER_DAY)"
      by (simp add: dayToIso_def getFullYear_def getMonth_def getDate_def)
    with True "1.prems" "1.IH" show ?thesis
      by (subst (asm) weekLoop.simps) auto
  next
    case False
    with "1.prems" show ?thesis
      by (subst (asm) weekLoop.simps) simp
  qed
qed






text \<open>The expansion of a header: the ends the header names, the dates of the loop between
  their local midnights, and, over steady midnights, the dates of the days from the first
  end to the second.\<close>

lemma parseWeekRange_Some:
  assumes "parseWeekRange h x = Some ds"
  obtains sm sd em ed where "weekRangeEnds x = Some (sm, sd, em, ed)"
    and "ds = weekLoop h (newDate h 2025 sm sd) (newDate h 2025 em ed)"
    and "ds \<noteq> []"
proof -
  from assms obtain sm sd em ed where e: "weekRangeEnds x = Some (sm, sd, em, ed)"
    by (cases "weekRangeEnds x") (auto simp: parseWeekRange_def)
  with assms have "ds = weekLoop h (newDate h 2025 sm sd) (newDate h 2025 em ed)" "ds \<noteq> []"
    by (auto simp: parseWeekRange_def Let_def split: if_splits)
  with e show ?thesis by (rule that)
qed


section \<open>Digits, letters and numbers as text\<close>

text \<open>A printable ASCII character other than the space.\<close>

definition asciiPlain :: "char \<Rightarrow> bool" where
  "asciiPlain c = ((33::int) \<le> of_char c \<and> of_char c < (127::int))"

lemma wsBytes_codes:
  "c \<in> wsBytes \<Longrightarrow> (of_char c :: int) \<le> 32 \<or> (128::int) \<le> of_char c"
  by (auto simp: wsBytes_def wsSeqs_def)

lemma asciiPlain_not_ws: "asciiPlain c \<Longrightarrow> c \<notin> wsBytes"
  using wsBytes_codes [of c] by (auto simp: asciiPlain_def)

lemma isDigit_plain: "isDigit c \<Longrightarrow> asciiPlain c"
  by (auto simp: isDigit_def asciiPlain_def)

lemma isDigit_not_ws: "isDigit c \<Longrightarrow> c \<notin> wsBytes"
  by (simp add: isDigit_plain asciiPlain_not_ws)

lemma lowerChar_lower:
  assumes "lowerChar c \<in> set ''abcdefghijklmnopqrstuvwxyz''"
  shows "asciiPlain c \<and> \<not> isDigit c \<and> c \<noteq> CHR ''/'' \<and> c \<noteq> CHR ''-'' \<and> c \<noteq> CHR '',''"
proof (cases "(65::int) \<le> of_char c \<and> of_char c \<le> (90::int)")
  case True
  then have "c \<noteq> CHR ''/''" "c \<noteq> CHR ''-''" "c \<noteq> CHR '',''" by auto
  with True show ?thesis
    by (auto simp: asciiPlain_def isDigit_def)
next
  case False
  then have "lowerChar c = c" by (auto simp: lowerChar_def)
  with assms show ?thesis
    by (auto simp: asciiPlain_def isDigit_def)
qed

lemma monthWord_chars:
  assumes "toLowerCase m \<in> set monthWords" and "c \<in> set m"
  shows "asciiPlain c \<and> \<not> isDigit c \<and> c \<noteq> CHR ''/'' \<and> c \<noteq> CHR ''-'' \<and> c \<noteq> CHR '',''"
proof -
  have "set (toLowerCase m) \<subseteq> set ''abcdefghijklmnopqrstuvwxyz''"
    using assms(1) by (auto simp: monthWords_def)
  moreover have "lowerChar c \<in> set (toLowerCase m)"
    using assms(2) by (simp add: toLowerCase_def)
  ultimately have "lowerChar c \<in> set ''abcdefghijklmnopqrstuvwxyz''"
    by (rule subsetD)
  then show ?thesis by (rule lowerChar_lower)
qed

lemma monthWord_length: "toLowerCase m \<in> set monthWords \<Longrightarrow> length m = 3"
proof -
  assume "toLowerCase m \<in> set monthWords"
  then have "length (toLowerCase m) = 3" by (auto simp: monthWords_def)
  then show ?thesis by (simp add: toLowerCase_def)
qed

lemma monthMap_words: "monthMap w = Some k \<Longrightarrow> w \<in> set monthWords \<and> 0 \<le> k \<and> k \<le> 11"
  by (auto simp: monthMap_def monthWords_def split: if_splits)

lemma monthWords_mapped: "w \<in> set monthWords \<Longrightarrow> \<exists>k. monthMap w = Some k"
  by (auto simp: monthMap_def monthWords_def)

subsection \<open>Decimal digits\<close>

lemma digitChar_isDigit: "isDigit (digitChar n)"
proof -
  have "0 \<le> n mod 10" "n mod 10 < 10" by simp_all
  then have "(48 + n mod 10) mod 256 = 48 + n mod 10" by simp
  then show ?thesis
    using \<open>0 \<le> n mod 10\<close> \<open>n mod 10 < 10\<close> by (simp add: digitChar_def isDigit_def)
qed


lemma digitVal_range: "isDigit c \<Longrightarrow> 0 \<le> digitVal c \<and> digitVal c \<le> 9"
  by (auto simp: isDigit_def digitVal_def)

lemma digitChar_digitVal: "isDigit c \<Longrightarrow> digitChar (digitVal c) = c"
proof -
  assume "isDigit c"
  then have "(of_char c - 48 :: int) mod 10 = of_char c - 48"
    by (simp add: isDigit_def)
  then show ?thesis by (simp add: digitChar_def digitVal_def)
qed

lemma natToString_small: "n < 10 \<Longrightarrow> natToString n = [digitChar n]"
  by (simp add: natToString.simps)

lemma natToString_large: "10 \<le> n \<Longrightarrow> natToString n = natToString (n div 10) @ [digitChar n]"
  by (subst natToString.simps) simp

lemma natToString_digits: "natToString n \<noteq> [] \<and> allDigits (natToString n)"
proof (induction n rule: natToString.induct)
  case (1 n)
  show ?case
  proof (cases "n < 10")
    case True
    then show ?thesis by (simp add: natToString_small allDigits_def digitChar_isDigit)
  next
    case False
    with 1 show ?thesis
      by (simp add: natToString_large allDigits_def digitChar_isDigit)
  qed
qed




text \<open>One or two digits, zero-padded to two, are what printing their value and padding it
  gives.\<close>

lemma padStart2_digits:
  assumes "allDigits ds" and "length ds = 1 \<or> length ds = 2"
  shows "padStart2 (intToString (digitsToInt ds)) = padStart2 ds"
proof -
  from assms(2) consider c where "ds = [c]" | c1 c2 where "ds = [c1, c2]"
    by (metis One_nat_def length_0_conv length_Suc_conv numeral_2_eq_2)
  then show ?thesis
  proof cases
    case 1
    then have d: "isDigit c" using assms(1) by (simp add: allDigits_def)
    then have v: "0 \<le> digitVal c" "digitVal c < 10"
      using digitVal_range [of c] by auto
    then show ?thesis
      using 1 d
      by (simp add: digitsToInt_def intToString_def natToString_small digitChar_digitVal)
  next
    case 2
    then have d: "isDigit c1" "isDigit c2" using assms(1) by (simp_all add: allDigits_def)
    then have v: "0 \<le> digitVal c1" "digitVal c1 < 10" "0 \<le> digitVal c2" "digitVal c2 < 10"
      using digitVal_range [of c1] digitVal_range [of c2] by auto
    have val: "digitsToInt ds = 10 * digitVal c1 + digitVal c2"
      using 2 by (simp add: digitsToInt_def)
    show ?thesis
    proof (cases "digitVal c1 = 0")
      case True
      moreover have "char_of (48::int) = CHR ''0''"
      proof -
        have "of_char (char_of (48::int)) = (of_char CHR ''0'' :: int)" by simp
        then show ?thesis by (simp only: of_char_eq_iff)
      qed
      ultimately have "c1 = CHR ''0''"
        using digitChar_digitVal [OF d(1)] by (simp add: digitChar_def)
      then show ?thesis
        using True v d 2 val
        by (simp add: intToString_def natToString_small digitChar_digitVal padStart2_def)
    next
      case False
      then have big: "10 \<le> 10 * digitVal c1 + digitVal c2" using v by simp
      have "(10 * digitVal c1 + digitVal c2) div 10 = digitVal c1"
        using v by simp
      moreover have "digitChar (10 * digitVal c1 + digitVal c2) = c2"
      proof -
        have "digitChar (10 * digitVal c1 + digitVal c2) = digitChar (digitVal c2)"
          using v by (simp add: digitChar_def)
        then show ?thesis by (simp add: digitChar_digitVal d)
      qed
      ultimately have "natToString (10 * digitVal c1 + digitVal c2) = [c1, c2]"
        using big v d by (simp add: natToString_large natToString_small digitChar_digitVal)
      then show ?thesis
        using val v 2 by (simp add: intToString_def padStart2_def)
    qed
  qed
qed

subsection \<open>Splitting\<close>

lemma splitOn_none: "d \<notin> set s \<Longrightarrow> splitOn d s = [s]"
  by (induction s) auto


lemma splitOn_not_Nil: "splitOn d s \<noteq> []"
  by (induction s) (auto split: list.splits)

lemma splitOn_chars: "c \<in> set s \<Longrightarrow> c = d \<or> (\<exists>p \<in> set (splitOn d s). c \<in> set p)"
proof (induction s)
  case Nil
  then show ?case by simp
next
  case (Cons x xs)
  then show ?case
    by (cases "splitOn d xs") (auto split: if_splits)
qed

lemma length_splitOn: "length (splitOn d s) = Suc (count_list s d)"
proof (induction s)
  case Nil
  then show ?case by simp
next
  case (Cons x xs)
  then show ?case
    by (cases "splitOn d xs") auto
qed

section \<open>Properties of the Date Resolver\<close>

lemma allDigits_nth: "allDigits s \<Longrightarrow> i < length s \<Longrightarrow> isDigit (s ! i)"
  by (simp add: allDigits_def list_all_length)

lemma isoShape_nth:
  assumes "isoShape s" and "i < 10"
  shows "if i = 4 \<or> i = 7 then s ! i = CHR ''-'' else isDigit (s ! i)"
proof -
  from assms(1) have len: "length s = 10"
    and a: "allDigits (take 4 s)" and b: "allDigits (take 2 (drop 5 s))" and c: "allDigits (drop 8 s)"
    and d: "s ! 4 = CHR ''-''" "s ! 7 = CHR ''-''"
    by (simp_all add: isoShape_def)
  consider "i < 4" | "i = 4" | "i = 5 \<or> i = 6" | "i = 7" | "i = 8 \<or> i = 9"
    using assms(2) by linarith
  then show ?thesis
  proof cases
    case 1
    then show ?thesis using allDigits_nth [OF a, of i] len by simp
  next
    case 2
    then show ?thesis using d by simp
  next
    case 3
    then show ?thesis using allDigits_nth [OF b, of "i - 5"] len by auto
  next
    case 4
    then show ?thesis using d by simp
  next
    case 5
    then show ?thesis using allDigits_nth [OF c, of "i - 8"] len by auto
  qed
qed

lemma isoShape_chars: "isoShape s \<Longrightarrow> c \<in> set s \<Longrightarrow> isDigit c \<or> c = CHR ''-''"
proof -
  assume s: "isoShape s" and "c \<in> set s"
  then obtain i where i: "i < length s" "s ! i = c" by (auto simp: in_set_conv_nth)
  moreover from s have "length s = 10" by (simp add: isoShape_def)
  ultimately show ?thesis
    using isoShape_nth [OF s, of i] by (auto split: if_splits)
qed

lemma isoShape_trim: "isoShape s \<Longrightarrow> trim s = s"
proof -
  assume s: "isoShape s"
  then have len: "length s = 10" by (simp add: isoShape_def)
  then have ne: "s \<noteq> []" by auto
  have "isDigit (s ! 0)" "isDigit (s ! 9)"
    using isoShape_nth [OF s, of 0] isoShape_nth [OF s, of 9] by simp_all
  moreover have "hd s = s ! 0" using ne by (simp add: hd_conv_nth)
  moreover have "last s = s ! 9" using ne len by (simp add: last_conv_nth)
  ultimately show ?thesis
    using ne by (simp add: trim_plain isDigit_not_ws)
qed

lemma slashParts_chars:
  "slashParts t = Some (a, b, y) \<Longrightarrow> c \<in> set t \<Longrightarrow> isDigit c \<or> c = CHR ''/''"
proof -
  assume p: "slashParts t = Some (a, b, y)" and c: "c \<in> set t"
  from p have sp: "splitOn (CHR ''/'') t = [a, b, y]"
    and d: "allDigits a" "allDigits b" "allDigits y"
    by (auto simp: slashParts_def split: list.splits if_splits)
  from splitOn_chars [OF c, of "CHR ''/''"] sp d show ?thesis
    by (auto simp: allDigits_def list_all_iff)
qed

text \<open>What a match of the month pattern consists of.\<close>

lemma matchMonthDay_parts:
  assumes "matchMonthDay t = Some (mon, day, r)"
  shows "toLowerCase mon \<in> set monthWords \<and> allDigits day \<and> (length day = 1 \<or> length day = 2) \<and>
         (\<forall>c \<in> set t. c \<in> set mon \<or> c \<in> wsBytes \<or> c \<in> set day \<or> c \<in> set r)"
proof -
  from assms obtain r1 r2 where
    m: "matchMonth t = Some (mon, r1)" and s: "matchSpaces r1 = Some r2" and d: "matchDay r2 = Some (day, r)"
    by (auto simp: matchMonthDay_def split: option.splits prod.splits)
  from m have mon: "toLowerCase mon \<in> set monthWords" and t: "t = mon @ r1"
    by (auto simp: matchMonth_def split: if_splits)
  from s have r2: "r2 = trimStart r1" by (auto simp: matchSpaces_def split: if_splits)
  from d have day: "day = takeWhile isDigit r2" "r = dropWhile isDigit r2"
    and len: "length day = 1 \<or> length day = 2"
    by (auto simp: matchDay_def Let_def split: if_splits)
  have "allDigits day"
    unfolding day allDigits_def list_all_iff by (auto dest: set_takeWhileD)
  moreover have "set r2 = set day \<union> set r"
    unfolding day by (metis set_append takeWhile_dropWhile_id)
  moreover have "set r1 \<subseteq> set r2 \<union> wsBytes"
    unfolding r2 by (rule set_trimStart)
  ultimately show ?thesis
    using mon len t by auto
qed

lemma monthNameMatch_chars:
  assumes "monthNameMatch t = Some (mon, day)" and "c \<in> set t"
  shows "c \<in> wsBytes \<or> isDigit c \<or> (asciiPlain c \<and> c \<noteq> CHR ''/'' \<and> c \<noteq> CHR ''-'' \<and> c \<noteq> CHR '','')"
proof -
  from assms(1) have "matchMonthDay t = Some (mon, day, [])"
    by (auto simp: monthNameMatch_def split: option.splits prod.splits if_splits)
  from matchMonthDay_parts [OF this] assms(2)
  have w: "toLowerCase mon \<in> set monthWords" and d: "allDigits day"
    and c: "c \<in> set mon \<or> c \<in> wsBytes \<or> c \<in> set day"
    by auto
  from c show ?thesis
    using monthWord_chars [OF w, of c] d by (auto simp: allDigits_def list_all_iff)
qed

text \<open>A text with a hyphen or a comma in it is resolved by the first rule or not at all.\<close>

lemma parseDate_separator:
  assumes "c \<in> set s" and "c = CHR ''-'' \<or> c = CHR '',''"
  shows "parseDate h s = (if isoShape (trim s) then Some (trim s) else None)"
proof -
  have c: "\<not> isDigit c" "c \<noteq> CHR ''/''" "c \<notin> wsBytes" "\<not> asciiPlain c \<or> c = CHR ''-'' \<or> c = CHR '',''"
    using assms(2) wsBytes_codes [of c] by (auto simp: isDigit_def)
  have ne: "s \<noteq> []" using assms(1) by auto
  have t: "c \<in> set (trim s)" using assms(1) c(3) by (rule set_trim)
  have "slashParts (trim s) = None"
  proof (cases "slashParts (trim s)")
    case (Some p)
    then show ?thesis
      using slashParts_chars [of "trim s" "fst p" "fst (snd p)" "snd (snd p)" c] t c by simp
  qed simp
  then have 1: "slashDate h (trim s) = None" by (simp add: slashDate_def)
  have "monthNameMatch (trim s) = None"
  proof (cases "monthNameMatch (trim s)")
    case (Some p)
    then show ?thesis
      using monthNameMatch_chars [of "trim s" "fst p" "snd p" c] t c assms(2) by auto
  qed simp
  then have 2: "monthNameDate (trim s) = None" by (simp add: monthNameDate_def)
  have "\<not> digitsShape (trim s)"
    using t c(1) by (auto simp: digitsShape_def allDigits_def list_all_iff)
  then have 3: "serialDate (trim s) = None" by (simp add: serialDate_def)
  show ?thesis
    using ne 1 2 3 by (simp add: parseDate_def Let_def)
qed

lemma parseDate_comma: "CHR '','' \<in> set s \<Longrightarrow> parseDate h s = None"
proof -
  assume c: "CHR '','' \<in> set s"
  have "CHR '','' \<notin> wsBytes" using wsBytes_codes [of "CHR '',''"] by auto
  with c have "CHR '','' \<in> set (trim s)" by (rule set_trim)
  then have "\<not> isoShape (trim s)"
    using isoShape_chars [of "trim s" "CHR '',''"] by (auto simp: isDigit_def)
  then show ?thesis
    using parseDate_separator [OF c, of h] by simp
qed

section \<open>Dates the Date Resolver leaves as they are\<close>

text \<open>A date is settled when passing it through the Date Resolver once more, as the text
  serializer does, gives it back.\<close>

definition settled :: "host \<Rightarrow> string \<Rightarrow> bool" where
  "settled h d = ((case parseDate h d of None \<Rightarrow> d | Some x \<Rightarrow> if x = [] then d else x) = d)"

lemma settled_normalizedDate: "settled h (date r) \<Longrightarrow> normalizedDate h r = date r"
  by (simp add: settled_def normalizedDate_def)

lemma settled_dash: "CHR ''-'' \<in> set d \<Longrightarrow> trim d = d \<Longrightarrow> settled h d"
  using parseDate_separator [of "CHR ''-''" d h] by (simp add: settled_def)

lemma settled_parts:
  assumes "x \<noteq> []" and "asciiPlain (hd x)" and "z \<noteq> []" and "asciiPlain (last z)"
  shows "settled h (x @ ''-'' @ m @ ''-'' @ z)"
proof (rule settled_dash)
  show "CHR ''-'' \<in> set (x @ ''-'' @ m @ ''-'' @ z)" by simp
  have "hd (x @ ''-'' @ m @ ''-'' @ z) = hd x" "last (x @ ''-'' @ m @ ''-'' @ z) = last z"
    using assms(1,3) by simp_all
  then show "trim (x @ ''-'' @ m @ ''-'' @ z) = x @ ''-'' @ m @ ''-'' @ z"
    using assms by (simp add: trim_plain asciiPlain_not_ws)
qed

lemma natToString_ends:
  "natToString n \<noteq> [] \<and> isDigit (hd (natToString n)) \<and> isDigit (last (natToString n))"
  using natToString_digits [of n] by (auto simp: allDigits_def list_all_iff)

lemma intToString_ends:
  "intToString n \<noteq> [] \<and> asciiPlain (hd (intToString n)) \<and> asciiPlain (last (intToString n))"
proof -
  have p: "natToString k \<noteq> []" "asciiPlain (hd (natToString k))" "asciiPlain (last (natToString k))"
    for k
    using natToString_ends [of k] by (simp_all add: isDigit_plain)
  have m: "asciiPlain (CHR ''-'')" by (simp add: asciiPlain_def)
  show ?thesis by (simp add: intToString_def p m)
qed

lemma padStart2_ends: "s \<noteq> [] \<Longrightarrow> padStart2 s \<noteq> [] \<and> last (padStart2 s) = last s"
  by (simp add: padStart2_def)

lemma formatIsoDate_settled: "settled h (formatIsoDate y m d)"
  unfolding formatIsoDate_def
  using intToString_ends [of y] intToString_ends [of d] padStart2_ends [of "intToString d"]
  by (intro settled_parts) auto

lemma isoDatePart_settled: "settled h (isoDatePart t)"
proof -
  let ?y = "yearFromDay (t div MS_PER_DAY)"
  let ?x = "if 0 \<le> ?y \<and> ?y \<le> 9999 then padZeros 4 (natToString ?y)
            else (if ?y < 0 then ''-'' else ''+'') @ padZeros 6 (natToString \<bar>?y\<bar>)"
  have pz: "padZeros n s \<noteq> [] \<and> asciiPlain (hd (padZeros n s))" if "s \<noteq> []" "isDigit (hd s)" for n s
  proof (cases "n - length s")
    case 0
    then show ?thesis using that by (simp add: padZeros_def isDigit_plain)
  next
    case (Suc k)
    then show ?thesis using that by (simp add: padZeros_def asciiPlain_def)
  qed
  have "?x \<noteq> [] \<and> asciiPlain (hd ?x)"
    using pz [of "natToString ?y" 4] natToString_ends [of ?y]
    by (auto simp: asciiPlain_def)
  then show ?thesis
    unfolding isoDatePart_def Let_def
    using intToString_ends [of "dateFromDay (t div MS_PER_DAY)"]
      padStart2_ends [of "intToString (dateFromDay (t div MS_PER_DAY))"]
    by (intro settled_parts) auto
qed

lemma excelSerialToIso_settled: "settled h (excelSerialToIso n)"
proof -
  have "settled h (''NaN'' @ ''-'' @ ''NaN'' @ ''-'' @ ''NaN'')"
    by (rule settled_parts) (simp_all add: asciiPlain_def)
  then show ?thesis
    by (simp add: excelSerialToIso_def Let_def dayToIso_def formatIsoDate_settled
        split: option.splits)
qed

lemma parseDate_settled:
  assumes "parseDate h x = Some d"
  shows "settled h d"
proof -
  let ?t = "trim x"
  from assms have ne: "x \<noteq> []" by (auto simp: parseDate_def)
  show ?thesis
  proof (cases "isoShape ?t")
    case True
    with assms ne have d: "d = ?t" by (simp add: parseDate_def Let_def)
    have "CHR ''-'' \<in> set ?t"
    proof -
      from True have len: "length ?t = 10" and dash: "?t ! 4 = CHR ''-''"
        by (simp_all add: isoShape_def)
      have "?t ! 4 \<in> set ?t" using len by (intro nth_mem) simp
      then show ?thesis by (simp only: dash)
    qed
    then show ?thesis
      unfolding d using isoShape_trim [OF True] by (intro settled_dash) simp_all
  next
    case False
    show ?thesis
    proof (cases "slashDate h ?t")
      case (Some r)
      with assms ne False have d: "d = r" by (simp add: parseDate_def Let_def)
      from Some obtain u where "r = isoDatePart u"
        by (auto simp: slashDate_def composedDate_def split: option.splits prod.splits if_splits)
      then show ?thesis unfolding d by (simp add: isoDatePart_settled)
    next
      case None
      show ?thesis
      proof (cases "monthNameDate ?t")
        case (Some r)
        with assms ne False None have d: "d = r" by (simp add: parseDate_def Let_def)
        from Some obtain k v where "r = formatIsoDate 2025 k v"
          by (auto simp: monthNameDate_def split: option.splits prod.splits)
        then show ?thesis unfolding d by (simp add: formatIsoDate_settled)
      next
        case n: None
        with assms ne False None have "serialDate ?t = Some d"
          by (simp add: parseDate_def Let_def)
        then obtain n where "d = excelSerialToIso n"
          by (auto simp: serialDate_def Let_def split: if_splits)
        then show ?thesis by (simp add: excelSerialToIso_settled)
      qed
    qed
  qed
qed

lemma parseWeekRange_settled:
  assumes "parseWeekRange h x = Some ds" and "d \<in> set ds"
  shows "settled h d"
proof -
  from assms(1) obtain sm sd em ed
    where "ds = weekLoop h (newDate h 2025 sm sd) (newDate h 2025 em ed)"
    by (rule parseWeekRange_Some)
  with assms(2) obtain n where "d = dayToIso n"
    using weekLoop_days by blast
  then show ?thesis by (simp add: dayToIso_def formatIsoDate_settled)
qed

lemma columnRecords_settled:
  assumes "\<And>ds d. map_of (expandedDates pd) i = Some ds \<Longrightarrow> d \<in> set ds \<Longrightarrow> settled h d"
    and "r \<in> set (columnRecords h pd options desc row i)"
  shows "settled h (date r)"
proof -
  obtain v where v: "parseAmount (cellAt row i) = Some v"
  proof (cases "parseAmount (cellAt row i)")
    case None
    with assms(2) show ?thesis by (simp add: columnRecords_def)
  next
    case (Some v)
    then show ?thesis by (rule that)
  qed
  let ?single = "case cellAt (headers pd) i of
                    None \<Rightarrow> []
                  | Some dateHeader \<Rightarrow>
                      (case parseDate h dateHeader of
                         None \<Rightarrow> []
                       | Some parsedDate \<Rightarrow>
                           if parsedDate = [] then []
                           else [makeRow h options v parsedDate desc])"
  have single: "settled h (date r)" if "r \<in> set ?single"
  proof (cases "cellAt (headers pd) i")
    case None
    with that show ?thesis by simp
  next
    case (Some x)
    show ?thesis
    proof (cases "parseDate h x")
      case None
      with that Some show ?thesis by simp
    next
      case d: (Some d)
      with that Some have "r = makeRow h options v d desc"
        by (cases "d = []") simp_all
      then show ?thesis
        using parseDate_settled [OF d] by (simp add: makeRow_def)
    qed
  qed
  show ?thesis
  proof (cases "map_of (expandedDates pd) i")
    case None
    with assms(2) v have "r \<in> set ?single" by (simp add: columnRecords_def Let_def)
    then show ?thesis by (rule single)
  next
    case (Some ds)
    show ?thesis
    proof (cases "ds = []")
      case True
      with assms(2) v Some have "r \<in> set ?single" by (simp add: columnRecords_def Let_def)
      then show ?thesis by (rule single)
    next
      case False
      with assms(2) v Some have "r = makeRow h options v (last ds) desc"
        by (simp add: columnRecords_def Let_def)
      moreover have "settled h (last ds)"
        using assms(1) [OF Some] False by simp
      ultimately show ?thesis by (simp add: makeRow_def)
    qed
  qed
qed

lemma transformData_settled:
  assumes "parseArrayData h grid = Inr pd" and "r \<in> set (transformData h pd options)"
  shows "settled h (date r)"
proof -
  from assms(2) obtain row desc i where "r \<in> set (columnRecords h pd options desc row i)"
    by (auto simp: transformData_def rowRecords_def Let_def split: option.splits if_splits)
  moreover have "settled h d" if "map_of (expandedDates pd) i = Some ds" "d \<in> set ds" for ds d
  proof -
    from that(1) have "parseWeekRange h (normalizeHeader (headers pd ! i)) = Some ds"
      using parse_expansions [OF assms(1), of i] by (simp split: if_splits)
    then show ?thesis using that(2) by (rule parseWeekRange_settled)
  qed
  ultimately show ?thesis by (rule columnRecords_settled [rotated])
qed

section \<open>Integers as binary64 numbers\<close>









section \<open>Serial numbers as text\<close>

lemma collapseFrom_plain: "\<forall>c \<in> set s. c \<notin> wsBytes \<Longrightarrow> collapseFrom b s = s"
  by (induction s arbitrary: b) (simp_all add: wsLen_plain)

lemma normDashes_plain: "CHR 0xE2 \<notin> set s \<Longrightarrow> normDashes s = s"
  by (induction s rule: normDashes.induct) auto

lemma normalizeHeader_plain:
  assumes "s \<noteq> []" and "\<forall>c \<in> set s. c \<notin> wsBytes"
  shows "normalizeHeader s = s"
proof -
  have "trim s = s"
    using assms by (intro trim_plain) simp_all
  moreover have "CHR 0xE2 \<in> wsBytes"
    by (simp add: wsBytes_def wsSeqs_def)
  then have "CHR 0xE2 \<notin> set s" using assms(2) by blast
  ultimately show ?thesis
    using assms(2) by (simp add: normalizeHeader_def collapseWs_def collapseFrom_plain normDashes_plain)
qed





section \<open>The label of the category column\<close>

text \<open>Lower-casing leaves white space alone and makes none, so it commutes with
  trimming.\<close>

lemma lowerChar_ws:
  shows "c \<in> wsBytes \<Longrightarrow> lowerChar c = c" and "lowerChar c \<in> wsBytes \<Longrightarrow> lowerChar c = c"
proof -
  show "lowerChar c = c" if "c \<in> wsBytes"
    using wsBytes_codes [OF that] by (auto simp: lowerChar_def)
  show "lowerChar c = c" if w: "lowerChar c \<in> wsBytes"
  proof (cases "(65::int) \<le> of_char c \<and> of_char c \<le> (90::int)")
    case True
    then have "(of_char (lowerChar c) :: int) = of_char c + 32"
      by (simp add: lowerChar_def of_char_of)
    with True wsBytes_codes [OF w] show ?thesis by simp
  next
    case False
    then show ?thesis by (auto simp: lowerChar_def)
  qed
qed

lemma startsWith_lower:
  "set w \<subseteq> wsBytes \<Longrightarrow> startsWith w (map lowerChar s) = startsWith w s"
proof (induction w s rule: startsWith.induct)
  case (3 p ps c cs)
  then have p: "p \<in> wsBytes" by simp
  have "p = lowerChar c \<longleftrightarrow> p = c"
    using p lowerChar_ws [of c] by auto
  with 3 show ?case by simp
qed simp_all

lemma stripLen_lower:
  assumes "set (concat ws) \<subseteq> wsBytes"
  shows "stripLen ws (map lowerChar s) = stripLen ws s"
proof -
  have "find (\<lambda>w. startsWith w (map lowerChar s)) ws = find (\<lambda>w. startsWith w s) ws"
    using assms by (intro find_cong refl startsWith_lower) auto
  then show ?thesis by (simp add: stripLen_def)
qed

lemma stripAll_lower:
  "set (concat ws) \<subseteq> wsBytes \<Longrightarrow> stripAll ws (map lowerChar s) = map lowerChar (stripAll ws s)"
proof (induction ws s rule: stripAll.induct)
  case (1 ws s)
  note len = stripLen_lower [OF "1.prems", of s]
  show ?case
  proof (cases "stripLen ws s = 0 \<or> s = []")
    case True
    then show ?thesis
      using len by (auto simp: stripAll_noop)
  next
    case False
    then have "stripAll ws (map lowerChar s) =
        stripAll ws (drop (stripLen ws s) (map lowerChar s))"
      using len stripAll_step [of ws "map lowerChar s"] by simp
    also have "\<dots> = map lowerChar (stripAll ws (drop (stripLen ws s) s))"
      using "1.IH" [OF False "1.prems"] by (simp add: drop_map)
    also have "\<dots> = map lowerChar (stripAll ws s)"
      using False stripAll_step [of ws s] by simp
    finally show ?thesis .
  qed
qed

lemma trim_lower: "trim (toLowerCase s) = toLowerCase (trim s)"
proof -
  have a: "set (concat wsSeqs) \<subseteq> wsBytes"
    by (simp add: wsBytes_def)
  have b: "set (concat (map rev wsSeqs)) \<subseteq> wsBytes"
    by (auto simp: wsBytes_def)
  show ?thesis
    by (simp add: trim_def trimStart_def trimEnd_def toLowerCase_def stripAll_lower [OF a]
        stripAll_lower [OF b] rev_map)
qed

text \<open>A header that carries the label of the category column is, to the date-column
  scan, a header that is not blank and not a date.\<close>

lemma category_label:
  assumes "isCategoryHeader x"
  shows "normalizeHeader x = trim x" and "normalizeHeader x \<noteq> []"
    and "\<not> isValidDateHeader h (normalizeHeader x)"
proof -
  let ?t = "trim x"
  have low: "toLowerCase ?t = ''category''"
    using assms by (simp add: isCategoryHeader_def trim_lower)
  then have "length (toLowerCase ?t) = 8" by simp
  then have len: "length ?t = 8" by (simp add: toLowerCase_def)
  then have ne: "?t \<noteq> []" by auto
  have ch: "asciiPlain c \<and> \<not> isDigit c" if "c \<in> set ?t" for c
  proof -
    from that have "lowerChar c \<in> set (toLowerCase ?t)" by (simp add: toLowerCase_def)
    then have "lowerChar c \<in> set ''abcdefghijklmnopqrstuvwxyz''"
      unfolding low by auto
    then show ?thesis using lowerChar_lower [of c] by simp
  qed
  then have plain: "\<forall>c \<in> set ?t. c \<notin> wsBytes"
    by (simp add: asciiPlain_not_ws)
  have "CHR 0xE2 \<in> wsBytes"
    by (simp add: wsBytes_def wsSeqs_def)
  with plain have "CHR 0xE2 \<notin> set ?t" by blast
  with plain show n: "normalizeHeader x = ?t"
    by (simp add: normalizeHeader_def collapseWs_def collapseFrom_plain normDashes_plain)
  from n ne show "normalizeHeader x \<noteq> []" by simp
  have nn: "normalizeHeader ?t = ?t"
    using ne plain by (rule normalizeHeader_plain)
  have "toLowerCase (take 3 ?t) = take 3 (toLowerCase ?t)"
    by (simp add: toLowerCase_def take_map)
  then have "toLowerCase (take 3 ?t) = ''cat''"
    unfolding low by simp
  then have "matchMonth ?t = None"
    by (simp add: matchMonth_def monthWords_def)
  then have md: "matchMonthDay ?t = None"
    by (simp add: matchMonthDay_def)
  then have "weekRangeEnds ?t = None"
    by (simp add: weekRangeEnds_def nn rangePattern1_def rangePattern2_def)
  then have w: "parseWeekRange h ?t = None"
    by (simp add: parseWeekRange_def)
  have "hd ?t \<in> set ?t" using ne by simp
  then have "\<not> isDigit (hd ?t)" using ch by blast
  then have "\<not> allDigits ?t"
    using ne by (cases ?t) (auto simp: allDigits_def)
  then have "\<not> isValidDateHeader h ?t"
    using len md w
    by (simp add: isValidDateHeader_def nn isoShape_def slashShape_def digitsShape_def
        monthNameMatch_def)
  with n show "\<not> isValidDateHeader h (normalizeHeader x)" by simp
qed

text \<open>A header that is neither blank nor a date ends the scan: every date column lies
  before it.\<close>

lemma scanHeaders_stop:
  assumes "i \<le> j" and "j < i + length hs"
    and "normalizeHeader (hs ! (j - i)) \<noteq> []"
    and "\<not> isValidDateHeader h (normalizeHeader (hs ! (j - i)))"
  shows "\<forall>k \<in> set (fst (scanHeaders h i hs)). k < j"
  using assms
proof (induction hs arbitrary: i)
  case Nil
  then show ?case by simp
next
  case (Cons x xs)
  show ?case
  proof (cases "j = i")
    case True
    with Cons.prems have "normalizeHeader x \<noteq> []" "\<not> isValidDateHeader h (normalizeHeader x)"
      by simp_all
    moreover from this have "x \<noteq> []" by (auto simp: normalizeHeader_Nil)
    ultimately show ?thesis by simp
  next
    case False
    with Cons.prems have j: "Suc i \<le> j" "j < Suc i + length xs" by simp_all
    then have "(x # xs) ! (j - i) = xs ! (j - Suc i)"
      by (simp add: Suc_diff_le)
    with Cons.prems have "\<forall>k \<in> set (fst (scanHeaders h (Suc i) xs)). k < j"
      by (intro Cons.IH j) simp_all
    moreover have "set (fst (scanHeaders h i (x # xs))) \<subseteq> insert i (set (fst (scanHeaders h (Suc i) xs)))"
      by (auto simp: Let_def case_prod_unfold)
    ultimately show ?thesis
      using j by auto
  qed
qed

lemma findDateIndices_stop:
  assumes "c < j" and "j < length hs"
    and "normalizeHeader (hs ! j) \<noteq> []" and "\<not> isValidDateHeader h (normalizeHeader (hs ! j))"
  shows "\<forall>k \<in> set (fst (findDateIndices h hs c)). k < j"
proof -
  have "drop (c + 1) hs ! (j - (c + 1)) = hs ! j"
    using assms(1,2) by simp
  with assms show ?thesis
    unfolding findDateIndices_def by (intro scanHeaders_stop) simp_all
qed

section \<open>Properties of the calendar\<close>

text \<open>The first day of the next year is 365 or 366 days on; so \<open>dayFromYear\<close> grows
  with the year, and \<open>yearFromDay\<close> is the year a day lies in.\<close>

lemma div_succ:
  fixes a n :: int
  assumes "0 < n"
  shows "(a + 1) div n = (if (a + 1) mod n = 0 then a div n + 1 else a div n)"
proof -
  define q r where "q = a div n" and "r = a mod n"
  have a: "a = n * q + r" and r: "0 \<le> r" "r < n"
    using assms by (simp_all add: q_def r_def)
  show ?thesis
  proof (cases "r + 1 = n")
    case True
    then have e: "a + 1 = n * (q + 1) + 0" using a by (simp add: algebra_simps)
    have "(a + 1) div n = q + 1" using e assms by (intro int_div_pos_eq [where r = 0]) simp_all
    moreover have "(a + 1) mod n = 0" using e assms by (intro int_mod_pos_eq [where q = "q + 1"]) simp_all
    ultimately show ?thesis by (simp add: q_def)
  next
    case False
    then have lt: "r + 1 < n" using r by simp
    have e: "a + 1 = n * q + (r + 1)" using a by simp
    have "(a + 1) div n = q" using e r lt by (intro int_div_pos_eq [where r = "r + 1"]) simp_all
    moreover have "(a + 1) mod n = r + 1" using e r lt by (intro int_mod_pos_eq [where q = q]) simp_all
    ultimately show ?thesis using r by (simp add: q_def)
  qed
qed

lemma shift_dvd: fixes y :: int shows "n dvd k \<Longrightarrow> (y - k) mod n = 0 \<longleftrightarrow> y mod n = 0"
  by (simp add: mod_eq_0_iff_dvd dvd_diff_left_iff)

lemma dvd_mod0: fixes y :: int shows "m dvd n \<Longrightarrow> y mod n = 0 \<Longrightarrow> y mod m = 0"
  by (simp add: mod_eq_0_iff_dvd) (erule dvd_trans, assumption)

lemma dayFromYear_step:
  "dayFromYear (y + 1) = dayFromYear y + 365 + (if inLeapYear y then 1 else 0)"
proof -
  define p4 p100 p400 where "p4 \<longleftrightarrow> y mod 4 = 0" and "p100 \<longleftrightarrow> y mod 100 = 0"
    and "p400 \<longleftrightarrow> y mod 400 = 0"
  have d4: "(y - 1968) div 4 = (y - 1969) div 4 + (if p4 then 1 else 0)"
  proof -
    have "(y - 1968) mod 4 = 0 \<longleftrightarrow> y mod 4 = 0" by (rule shift_dvd) simp
    then show ?thesis using div_succ [of 4 "y - 1969"] by (simp add: p4_def)
  qed
  have d100: "(y - 1900) div 100 = (y - 1901) div 100 + (if p100 then 1 else 0)"
  proof -
    have "(y - 1900) mod 100 = 0 \<longleftrightarrow> y mod 100 = 0" by (rule shift_dvd) simp
    then show ?thesis using div_succ [of 100 "y - 1901"] by (simp add: p100_def)
  qed
  have d400: "(y - 1600) div 400 = (y - 1601) div 400 + (if p400 then 1 else 0)"
  proof -
    have "(y - 1600) mod 400 = 0 \<longleftrightarrow> y mod 400 = 0" by (rule shift_dvd) simp
    then show ?thesis using div_succ [of 400 "y - 1601"] by (simp add: p400_def)
  qed
  have a: "p400 \<Longrightarrow> p100" unfolding p400_def p100_def by (rule dvd_mod0 [of 100 400]) simp_all
  have b: "p100 \<Longrightarrow> p4" unfolding p4_def p100_def by (rule dvd_mod0 [of 4 100]) simp_all
  have l: "inLeapYear y \<longleftrightarrow> p4 \<and> (\<not> p100 \<or> p400)"
    by (simp add: inLeapYear_def p4_def p100_def p400_def)
  have "dayFromYear (y + 1) =
      365 * (y - 1969) + (y - 1968) div 4 - (y - 1900) div 100 + (y - 1600) div 400"
    by (simp add: dayFromYear_def)
  also have "\<dots> = dayFromYear y + 365 + (if p4 then 1 else 0) - (if p100 then 1 else 0)
      + (if p400 then 1 else 0)"
    unfolding d4 d100 d400 dayFromYear_def by (simp add: algebra_simps)
  also have "\<dots> = dayFromYear y + 365 + (if inLeapYear y then 1 else 0)"
    unfolding l using a b by (cases p4; cases p100; cases p400) simp_all
  finally show ?thesis .
qed

lemma dayFromYear_mono: "y \<le> z \<Longrightarrow> dayFromYear y + 365 * (z - y) \<le> dayFromYear z"
proof (induction "nat (z - y)" arbitrary: z)
  case 0
  then show ?case by simp
next
  case (Suc n)
  then have "n = nat (z - 1 - y)" "y \<le> z - 1" by simp_all
  then have "dayFromYear y + 365 * (z - 1 - y) \<le> dayFromYear (z - 1)" by (rule Suc.hyps)
  moreover have "dayFromYear (z - 1) + 365 \<le> dayFromYear z"
    using dayFromYear_step [of "z - 1"] by simp
  ultimately show ?case by (simp add: algebra_simps)
qed

lemma dayFromYear_less: "y < z \<Longrightarrow> dayFromYear y < dayFromYear z"
  using dayFromYear_mono [of y z] by simp








subsection \<open>Digit groups and the numbers they denote\<close>

lemma digitsToInt_Cons_zero: "digitsToInt (replicate n CHR ''0'' @ s) = digitsToInt s"
proof (induction n)
  case 0
  then show ?case by simp
next
  case (Suc n)
  have "digitsToInt (CHR ''0'' # replicate n CHR ''0'' @ s) =
      foldl (\<lambda>a c. 10 * a + digitVal c) (digitVal CHR ''0'') (replicate n CHR ''0'' @ s)"
    by (simp add: digitsToInt_def)
  also have "digitVal CHR ''0'' = 0" by (simp add: digitVal_def)
  finally show ?case using Suc by (simp add: digitsToInt_def)
qed








section \<open>The end-to-end example\<close>

text \<open>
  C1. Parsing the grid with the header row Category, 2025-01-01, 2025-01-02, 2025-01-03 and
  the three data rows of the specification succeeds, with the category in column 0 and
  the date columns 1, 2, 3; transforming the result with currency SEK and parent id
  ENTITY_ID yields exactly the five records listed, in this order. This holds for every
  host and whatever the optional periodicity.
\<close>

theorem C1_end_to_end:
  "parseArrayData h
     [[CStr ''Category'', CStr ''2025-01-01'', CStr ''2025-01-02'', CStr ''2025-01-03''],
      [CStr ''Marketing>Ads'', CStr ''1200'', CStr ''800'', CStr ''''],
      [CStr ''Ops>Office'', CStr ''150'', CStr '''', CStr ''''],
      [CStr ''R&D>Hosting'', CStr '''', CStr ''100,50'', CStr ''200'']]
   = Inr \<lparr>headers = [''Category'', ''2025-01-01'', ''2025-01-02'', ''2025-01-03''],
           data = [[''Marketing>Ads'', ''1200'', ''800'', ''''],
                   [''Ops>Office'', ''150'', '''', ''''],
                   [''R&D>Hosting'', '''', ''100,50'', ''200'']],
           categoryIndex = 0, dateIndices = [1, 2, 3], expandedDates = []\<rparr>
   \<and>
   transformData h
     \<lparr>headers = [''Category'', ''2025-01-01'', ''2025-01-02'', ''2025-01-03''],
      data = [[''Marketing>Ads'', ''1200'', ''800'', ''''],
              [''Ops>Office'', ''150'', '''', ''''],
              [''R&D>Hosting'', '''', ''100,50'', ''200'']],
      categoryIndex = 0, dateIndices = [1, 2, 3], expandedDates = []\<rparr>
     \<lparr>currency = ''SEK'', parentId = ''ENTITY_ID'', periodicity = p\<rparr>
   = [\<lparr>amount_currency = ''SEK'', amount_stringValue = ''1200.00'', date = ''2025-01-01'',
       parent_id = ''ENTITY_ID'', parent_type = ''ENTITY'', description = ''Ads'',
       metadata_atlar_category = ''Ads''\<rparr>,
      \<lparr>amount_currency = ''SEK'', amount_stringValue = ''800.00'', date = ''2025-01-02'',
       parent_id = ''ENTITY_ID'', parent_type = ''ENTITY'', description = ''Ads'',
       metadata_atlar_category = ''Ads''\<rparr>,
      \<lparr>amount_currency = ''SEK'', amount_stringValue = ''150.00'', date = ''2025-01-01'',
       parent_id = ''ENTITY_ID'', parent_type = ''ENTITY'', description = ''Office'',
       metadata_atlar_category = ''Office''\<rparr>,
      \<lparr>amount_currency = ''SEK'', amount_stringValue = ''100.50'', date = ''2025-01-02'',
       parent_id = ''ENTITY_ID'', parent_type = ''ENTITY'', description = ''Hosting'',
       metadata_atlar_category = ''Hosting''\<rparr>,
      \<lparr>amount_currency = ''SEK'', amount_stringValue = ''200.00'', date = ''2025-01-03'',
       parent_id = ''ENTITY_ID'', parent_type = ''ENTITY'', description = ''Hosting'',
       metadata_atlar_category = ''Hosting''\<rparr>]"
  by code_simp

section \<open>The date-column scan\<close>

lemma scanHeaders_filter:
  "fst (scanHeaders h i xs) =
     filter (\<lambda>j. normalizeHeader (xs ! (j - i)) \<noteq> [] \<and>
                 isValidDateHeader h (normalizeHeader (xs ! (j - i))) \<and>
                 (\<forall>k \<in> {i ..< j}. normalizeHeader (xs ! (k - i)) = [] \<or>
                                   isValidDateHeader h (normalizeHeader (xs ! (k - i)))))
       [i ..< i + length xs]"
proof (induction xs arbitrary: i)
  case Nil
  then show ?case by simp
next
  case (Cons x xs)
  let ?ok = "\<lambda>y. normalizeHeader y = [] \<or> isValidDateHeader h (normalizeHeader y)"
  let ?date = "\<lambda>y. normalizeHeader y \<noteq> [] \<and> isValidDateHeader h (normalizeHeader y)"
  let ?P = "\<lambda>j. ?date ((x # xs) ! (j - i)) \<and> (\<forall>k \<in> {i ..< j}. ?ok ((x # xs) ! (k - i)))"
  let ?Q = "\<lambda>j. ?date (xs ! (j - Suc i)) \<and> (\<forall>k \<in> {Suc i ..< j}. ?ok (xs ! (k - Suc i)))"
  let ?L = "[Suc i ..< Suc i + length xs]"
  have upt: "[i ..< i + length (x # xs)] = i # ?L"
    by (simp add: upt_conv_Cons del: upt_Suc)
  have IH: "fst (scanHeaders h (Suc i) xs) = filter ?Q ?L"
    using Cons.IH [of "Suc i"] by (simp only: conj_assoc)
  have scan: "fst (scanHeaders h i (x # xs)) =
      (if ?date x then i # fst (scanHeaders h (Suc i) xs)
       else if ?ok x then fst (scanHeaders h (Suc i) xs) else [])"
    by (simp add: Let_def case_prod_unfold)
  have head: "?P i = ?date x"
    by simp
  have tail: "filter ?P ?L = (if ?ok x then filter ?Q ?L else [])"
  proof (cases "?ok x")
    case True
    have pt: "?P j = ?Q j" if "j \<in> set ?L" for j
    proof -
      from that have j: "Suc i \<le> j" by auto
      then have a: "(x # xs) ! (j - i) = xs ! (j - Suc i)"
        by (simp add: Suc_diff_le)
      have b: "{i ..< j} = insert i {Suc i ..< j}"
        using j by auto
      have c: "(x # xs) ! (k - i) = xs ! (k - Suc i)" if "k \<in> {Suc i ..< j}" for k
        using that by (simp add: Suc_diff_le)
      show ?thesis
        unfolding a b using True c by auto
    qed
    have "filter ?P ?L = filter ?Q ?L"
      by (rule filter_cong [OF refl pt])
    then show ?thesis
      using True by (simp only: if_True)
  next
    case False
    have "\<not> ?P j" if "j \<in> set ?L" for j
    proof -
      from that have "i \<in> {i ..< j}" by auto
      moreover have "\<not> ?ok ((x # xs) ! (i - i))" using False by simp
      ultimately show ?thesis by blast
    qed
    then have "filter ?P ?L = []"
      unfolding filter_empty_conv by blast
    with False show ?thesis by (simp only: if_False)
  qed
  have "filter ?P (i # ?L) = (if ?date x then i # filter ?P ?L else filter ?P ?L)"
    using head by (simp only: filter.simps)
  also have "\<dots> = (if ?date x then i # filter ?Q ?L else if ?ok x then filter ?Q ?L else [])"
    unfolding tail by auto
  also have "\<dots> = fst (scanHeaders h i (x # xs))"
    unfolding scan IH ..
  finally have "fst (scanHeaders h i (x # xs)) = filter ?P (i # ?L)"
    by (rule sym)
  then show ?case
    unfolding upt by (simp only: conj_assoc)
qed

text \<open>
  C2. For every header row \<open>hs\<close> and category column \<open>c\<close>, the date columns are exactly,
  in ascending order, the columns \<open>j\<close> to the right of \<open>c\<close> whose normalised header is not
  empty and is a valid date header, and such that every column strictly between \<open>c\<close> and
  \<open>j\<close> is blank (normalised header empty) or a valid date header. So a blank column is
  skipped without ending the scan, and the first column that is neither blank nor valid
  ends it: that column and every later one, date-like or not, is excluded.
\<close>

theorem C2_date_scan:
  "fst (findDateIndices h hs c) =
     filter (\<lambda>j. normalizeHeader (hs ! j) \<noteq> [] \<and>
                 isValidDateHeader h (normalizeHeader (hs ! j)) \<and>
                 (\<forall>k \<in> {c + 1 ..< j}. normalizeHeader (hs ! k) = [] \<or>
                                       isValidDateHeader h (normalizeHeader (hs ! k))))
       [c + 1 ..< length hs]"
proof (cases "c + 1 \<le> length hs")
  case True
  have len: "c + 1 + length (drop (c + 1) hs) = length hs"
    using True by simp
  have nth: "drop (c + 1) hs ! (j - (c + 1)) = hs ! j" if "c + 1 \<le> j" for j
    using that True by simp
  have "(normalizeHeader (drop (c + 1) hs ! (j - (c + 1))) \<noteq> [] \<and>
         isValidDateHeader h (normalizeHeader (drop (c + 1) hs ! (j - (c + 1)))) \<and>
         (\<forall>k \<in> {c + 1 ..< j}. normalizeHeader (drop (c + 1) hs ! (k - (c + 1))) = [] \<or>
              isValidDateHeader h (normalizeHeader (drop (c + 1) hs ! (k - (c + 1)))))) =
        (normalizeHeader (hs ! j) \<noteq> [] \<and> isValidDateHeader h (normalizeHeader (hs ! j)) \<and>
         (\<forall>k \<in> {c + 1 ..< j}. normalizeHeader (hs ! k) = [] \<or>
              isValidDateHeader h (normalizeHeader (hs ! k))))"
    if "j \<in> set [c + 1 ..< length hs]" for j
  proof -
    from that have "c + 1 \<le> j" by auto
    then show ?thesis using nth by auto
  qed
  then show ?thesis
    unfolding findDateIndices_def scanHeaders_filter len
    by (intro filter_cong) auto
next
  case False
  then show ?thesis by (simp add: findDateIndices_def)
qed

theorem C2_date_scan_witness:
  "\<forall>h. fst (findDateIndices h
          [''Notes'', ''Category'', ''2025-01-01'', '''', ''Oct 29'', ''Total'', ''2025-01-05''] 1)
   = [2, 4]"
proof
  fix h
  show "fst (findDateIndices h
          [''Notes'', ''Category'', ''2025-01-01'', '''', ''Oct 29'', ''Total'', ''2025-01-05''] 1)
   = [2, 4]"
    using C2_date_scan
      [of h "[''Notes'', ''Category'', ''2025-01-01'', '''', ''Oct 29'', ''Total'', ''2025-01-05'']" 1]
    by code_simp
qed

section \<open>Week ranges\<close>





section \<open>Slash dates\<close>





section \<open>Day serials in headers\<close>




section \<open>The category column\<close>

lemma findIndex_None: "findIndex P xs = None \<longleftrightarrow> (\<forall>x \<in> set xs. \<not> P x)"
  by (induction xs) auto

lemma findIndex_Some:
  "findIndex P xs = Some i \<Longrightarrow> i < length xs \<and> P (xs ! i) \<and> (\<forall>j < i. \<not> P (xs ! j))"
proof (induction xs arbitrary: i)
  case Nil
  then show ?case by simp
next
  case (Cons x xs)
  show ?case
  proof (cases "P x")
    case True
    with Cons.prems show ?thesis by simp
  next
    case False
    with Cons.prems obtain k where k: "findIndex P xs = Some k" "i = Suc k" by auto
    from Cons.IH [OF k(1)] False k(2) show ?thesis
      by (auto simp: less_Suc_eq_0_disj)
  qed
qed

text \<open>
  C6, as the code has it. Parsing a grid with a header row fails with the
  missing-category error exactly when no header's trimmed, lower-cased label is
  \<open>category\<close>. When parsing succeeds the category column is the leftmost column so
  labelled: no column before it carries the label, and a column after it that carries the
  label too is no error of its own. Such a column is classified like any other header to
  the right of the category column: its label is not blank and not a date, so it ends the
  date-column scan, and every date column lies between the category column and it.
\<close>

theorem C6_category_column:
  "(parseArrayData h (headerRow # rows) = Inl MissingCategoryColumn \<longleftrightarrow>
      (\<forall>x \<in> set (map (convertHeader h) headerRow). \<not> isCategoryHeader x)) \<and>
   (parseArrayData h grid = Inr pd \<longrightarrow>
      categoryIndex pd < length (headers pd) \<and>
      isCategoryHeader (headers pd ! categoryIndex pd) \<and>
      (\<forall>j < categoryIndex pd. \<not> isCategoryHeader (headers pd ! j))) \<and>
   (isCategoryHeader x \<longrightarrow>
      normalizeHeader x \<noteq> [] \<and> \<not> isValidDateHeader h (normalizeHeader x)) \<and>
   (parseArrayData h grid = Inr pd \<longrightarrow>
      (\<forall>j. categoryIndex pd < j \<and> j < length (headers pd) \<and> isCategoryHeader (headers pd ! j) \<longrightarrow>
           (\<forall>k \<in> set (dateIndices pd). categoryIndex pd < k \<and> k < j)))"
proof -
  have 1: "parseArrayData h (headerRow # rows) = Inl MissingCategoryColumn \<longleftrightarrow>
      (\<forall>x \<in> set (map (convertHeader h) headerRow). \<not> isCategoryHeader x)"
  proof (cases "findCategoryIndex (map (convertHeader h) headerRow)")
    case None
    then have a: "findIndex isCategoryHeader (map (convertHeader h) headerRow) = None"
      by (simp add: findCategoryIndex_def)
    then have "parseArrayData h (headerRow # rows) = Inl MissingCategoryColumn"
      by (simp add: parseArrayData_def findCategoryIndex_def)
    moreover have "\<forall>x \<in> set (map (convertHeader h) headerRow). \<not> isCategoryHeader x"
      using a by (simp only: findIndex_None)
    ultimately show ?thesis by blast
  next
    case (Some ci)
    then have "\<not> (\<forall>x \<in> set (map (convertHeader h) headerRow). \<not> isCategoryHeader x)"
      using findIndex_None [of isCategoryHeader "map (convertHeader h) headerRow"]
      by (simp add: findCategoryIndex_def)
    moreover have "parseArrayData h (headerRow # rows) \<noteq> Inl MissingCategoryColumn"
      using Some by (auto simp: parseArrayData_def Let_def split: prod.splits)
    ultimately show ?thesis by blast
  qed
  have 2: "categoryIndex pd < length (headers pd) \<and>
      isCategoryHeader (headers pd ! categoryIndex pd) \<and>
      (\<forall>j < categoryIndex pd. \<not> isCategoryHeader (headers pd ! j))"
    if "parseArrayData h grid = Inr pd"
  proof -
    from that have "findIndex isCategoryHeader (headers pd) = Some (categoryIndex pd)"
      by (rule parseArrayData_Inr) (simp add: findCategoryIndex_def)
    then show ?thesis by (rule findIndex_Some)
  qed
  have 3: "normalizeHeader x \<noteq> [] \<and> \<not> isValidDateHeader h (normalizeHeader x)"
    if "isCategoryHeader x"
    using category_label(2,3) [OF that] by simp
  have 4: "\<forall>k \<in> set (dateIndices pd). categoryIndex pd < k \<and> k < j"
    if p: "parseArrayData h grid = Inr pd"
      and j: "categoryIndex pd < j \<and> j < length (headers pd) \<and> isCategoryHeader (headers pd ! j)"
    for j
  proof -
    from p have f: "fst (findDateIndices h (headers pd) (categoryIndex pd)) = dateIndices pd"
      by (rule parseArrayData_Inr) simp
    from j have l: "isCategoryHeader (headers pd ! j)" by simp
    have "\<forall>k \<in> set (fst (findDateIndices h (headers pd) (categoryIndex pd))). k < j"
      using j category_label(2,3) [OF l] by (intro findDateIndices_stop) simp_all
    moreover have "categoryIndex pd < k"
      if "k \<in> set (fst (findDateIndices h (headers pd) (categoryIndex pd)))" for k
      using scanHeaders_lower [of k h "categoryIndex pd + 1" "drop (categoryIndex pd + 1) (headers pd)"]
        that by (simp add: findDateIndices_def)
    ultimately show ?thesis
      unfolding f by blast
  qed
  from 1 2 3 4 show ?thesis by blast
qed

theorem C6_category_column_witness:
  "parseArrayData \<lparr>zone = fixedZone 0, isoDayLimit = (\<lambda>y m. 31), numberText = (\<lambda>q. [])\<rparr> [[CStr ''Total'', CStr ''2025-01-01''], [CStr ''A'', CStr ''5'']]
     = Inl MissingCategoryColumn \<and>
   isCategoryHeader ([''Notes'', '' CATEGORY '', ''2025-01-01'', ''category'', ''2025-01-02''] ! 1) \<and>
   \<not> isCategoryHeader ([''Notes'', '' CATEGORY '', ''2025-01-01'', ''category'', ''2025-01-02''] ! 0) \<and>
   \<not> isValidDateHeader \<lparr>zone = fixedZone 0, isoDayLimit = (\<lambda>y m. 31), numberText = (\<lambda>q. [])\<rparr> (normalizeHeader ''category'') \<and>
   list_all (\<lambda>k. 1 < k \<and> k < 3)
     (fst (findDateIndices \<lparr>zone = fixedZone 0, isoDayLimit = (\<lambda>y m. 31), numberText = (\<lambda>q. [])\<rparr> [''Notes'', '' CATEGORY '', ''2025-01-01'', ''category'', ''2025-01-02''] 1))"
proof -
  let ?h = "\<lparr>zone = fixedZone 0, isoDayLimit = (\<lambda>y m. 31), numberText = (\<lambda>q. [])\<rparr>"
  let ?hs = "[''Notes'', '' CATEGORY '', ''2025-01-01'', ''category'', ''2025-01-02'']"
  let ?grid = "[[CStr ''Notes'', CStr '' CATEGORY '', CStr ''2025-01-01'', CStr ''category'',
                 CStr ''2025-01-02''],
                [CStr ''x'', CStr ''A'', CStr ''5'', CStr ''y'', CStr ''6'']]"
  let ?pd = "\<lparr>headers = ?hs, data = [[''x'', ''A'', ''5'', ''y'', ''6'']],
              categoryIndex = 1, dateIndices = [2], expandedDates = []\<rparr>"
  have p: "parseArrayData ?h ?grid = Inr ?pd"
    by code_simp
  have n: "\<forall>x \<in> set (map (convertHeader ?h) [CStr ''Total'', CStr ''2025-01-01'']). \<not> isCategoryHeader x"
    by code_simp
  have c: "isCategoryHeader ''category''"
    by code_simp
  note all = C6_category_column
         [of ?h "[CStr ''Total'', CStr ''2025-01-01'']" "[[CStr ''A'', CStr ''5'']]" ?grid ?pd
             "''category''"]
  have a: "parseArrayData ?h [[CStr ''Total'', CStr ''2025-01-01''], [CStr ''A'', CStr ''5'']]
     = Inl MissingCategoryColumn"
    using all n by blast
  have b: "isCategoryHeader (?hs ! 1) \<and> \<not> isCategoryHeader (?hs ! 0)"
    using all p by simp
  have d: "\<not> isValidDateHeader ?h (normalizeHeader ''category'')"
    using all c by blast
  have "\<forall>j. categoryIndex ?pd < j \<and> j < length (headers ?pd) \<and> isCategoryHeader (headers ?pd ! j) \<longrightarrow>
           (\<forall>k \<in> set (dateIndices ?pd). categoryIndex ?pd < k \<and> k < j)"
    using all p by blast
  then have "categoryIndex ?pd < 3 \<and> 3 < length (headers ?pd) \<and> isCategoryHeader (headers ?pd ! 3) \<longrightarrow>
           (\<forall>k \<in> set (dateIndices ?pd). categoryIndex ?pd < k \<and> k < 3)"
    by (rule spec)
  then have "\<forall>k \<in> set [2::nat]. 1 < k \<and> k < 3"
    using c by simp
  moreover have "fst (findDateIndices ?h ?hs 1) = [2]"
    by code_simp
  ultimately have e: "list_all (\<lambda>k. 1 < k \<and> k < 3) (fst (findDateIndices ?h ?hs 1))"
    by (simp only: list_all_iff)
  from a b d e show ?thesis by blast
qed

text \<open>Two columns labelled as the category column are no error; the grid fails only
  where the second one, ending the scan, leaves no date column.\<close>

theorem C6_duplicate_category_counterexample:
  "isCategoryHeader ''Category'' \<and>
   parseArrayData \<lparr>zone = fixedZone 0, isoDayLimit = (\<lambda>y m. 31), numberText = (\<lambda>q. [])\<rparr>
     [[CStr ''Category'', CStr ''2025-01-01'', CStr ''Category''],
      [CStr ''A'', CStr ''5'', CStr ''x'']]
   = Inr \<lparr>headers = [''Category'', ''2025-01-01'', ''Category''],
           data = [[''A'', ''5'', ''x'']],
           categoryIndex = 0, dateIndices = [1], expandedDates = []\<rparr> \<and>
   parseArrayData \<lparr>zone = fixedZone 0, isoDayLimit = (\<lambda>y m. 31), numberText = (\<lambda>q. [])\<rparr>
     [[CStr ''Category'', CStr ''2025-01-01'', CStr ''Category'', CStr ''2025-01-02''],
      [CStr ''A'', CStr ''5'', CStr ''x'', CStr ''6'']]
   = Inr \<lparr>headers = [''Category'', ''2025-01-01'', ''Category'', ''2025-01-02''],
           data = [[''A'', ''5'', ''x'', ''6'']],
           categoryIndex = 0, dateIndices = [1], expandedDates = []\<rparr> \<and>
   parseArrayData \<lparr>zone = fixedZone 0, isoDayLimit = (\<lambda>y m. 31), numberText = (\<lambda>q. [])\<rparr>
     [[CStr ''Category'', CStr ''Category'', CStr ''2025-01-01''],
      [CStr ''A'', CStr ''x'', CStr ''5'']]
   = Inl NoDateColumns"
  by code_simp

section \<open>The Amount Resolver\<close>

lemma replaceFirst_first:
  "a \<notin> set xs \<Longrightarrow> replaceFirst a b (xs @ a # ys) = xs @ b # ys"
  by (induction xs) auto

text \<open>
  C7, as the code has it. For every input the Amount Resolver returns null or a number
  that is not NaN: a finite number, or an infinity (the counterexample below). Null, the
  empty text and a text of white space only give null. For any other text the result is
  \<^verbatim>\<open>parseFloat\<close> of the trimmed text with its first comma, and only that one, turned
  into a point, and null when that is NaN; so \<open>100,50\<close> is 100.5.
\<close>

theorem C7_amount:
  "parseAmount x \<noteq> Some NaN \<and>
   parseAmount None = None \<and>
   parseAmount (Some []) = None \<and>
   (set ws \<subseteq> set wsSeqs \<longrightarrow> parseAmount (Some (concat ws)) = None) \<and>
   (trim s \<noteq> [] \<longrightarrow>
      parseAmount (Some s) =
        (let parsed = parseFloat (replaceFirst (CHR '','') (CHR ''.'') (trim s))
         in if parsed = NaN then None else Some parsed)) \<and>
   (CHR '','' \<notin> set a \<longrightarrow>
      replaceFirst (CHR '','') (CHR ''.'') (a @ '','' @ b) = a @ ''.'' @ b) \<and>
   parseAmount (Some ''100,50'') = Some (Fin (201 / 2))"
proof (intro conjI impI)
  show "parseAmount x \<noteq> Some NaN"
    by (auto simp: parseAmount_def Let_def split: option.splits if_splits)
  show "parseAmount None = None" "parseAmount (Some []) = None"
    by (simp_all add: parseAmount_def)
  show "parseAmount (Some (concat ws)) = None" if "set ws \<subseteq> set wsSeqs"
    using trim_ws_only [OF that] by (simp add: parseAmount_def Let_def)
  show "parseAmount (Some s) =
        (let parsed = parseFloat (replaceFirst (CHR '','') (CHR ''.'') (trim s))
         in if parsed = NaN then None else Some parsed)" if "trim s \<noteq> []"
  proof -
    from that have "s \<noteq> []" by auto
    with that show ?thesis by (simp add: parseAmount_def Let_def)
  qed
  show "replaceFirst (CHR '','') (CHR ''.'') (a @ '','' @ b) = a @ ''.'' @ b" if "CHR '','' \<notin> set a"
    using replaceFirst_first [OF that, of "CHR ''.''" b] by simp
  show "parseAmount (Some ''100,50'') = Some (Fin (201 / 2))"
    by code_simp
qed

theorem C7_amount_witness:
  "parseAmount (Some (concat ['' '', [CHR 0x09], '' ''])) = None \<and>
   parseAmount (Some '' 12abc '') = Some (Fin 12) \<and>
   replaceFirst (CHR '','') (CHR ''.'') (''1'' @ '','' @ ''234,5'') = ''1'' @ ''.'' @ ''234,5''"
proof -
  have w: "set ['' '', [CHR 0x09], '' ''] \<subseteq> set wsSeqs"
    by (simp add: wsSeqs_def)
  have t: "trim '' 12abc '' = ''12abc''"
    by code_simp
  have f: "parseFloat (replaceFirst (CHR '','') (CHR ''.'') ''12abc'') = Fin 12"
    by code_simp
  have c: "CHR '','' \<notin> set ''1''"
    by simp
  from C7_amount [of undefined "['' '', [CHR 0x09], '' '']" "'' 12abc ''" "''1''" "''234,5''"] w t f c
  show ?thesis by simp
qed

theorem C7_infinity_counterexample:
  "parseAmount (Some ''Infinity'') = Some PosInfinity \<and>
   parseAmount (Some ''-Infinity'') = Some NegInfinity"
  by code_simp

section \<open>The two serializations\<close>



section \<open>Month-name headers\<close>

lemma matchMonthDay_token:
  assumes "toLowerCase mon \<in> set monthWords" and "allDigits D" and "length D = 1 \<or> length D = 2"
  shows "matchMonthDay (mon @ '' '' @ D) = Some (mon, D, [])"
proof -
  have len: "length mon = 3" using assms(1) by (rule monthWord_length)
  have D: "D \<noteq> []" using assms(3) by auto
  then obtain c cs where Dc: "D = c # cs" by (cases D) auto
  then have c: "c \<notin> wsBytes"
    using assms(2) by (simp add: allDigits_def isDigit_not_ws)
  have m: "matchMonth (mon @ '' '' @ D) = Some (mon, '' '' @ D)"
    using assms(1) len by (simp add: matchMonth_def)
  have sp: "'' '' \<in> set wsSeqs" by (simp add: wsSeqs_def)
  have l: "wsLen ('' '' @ D) = 1"
    using stripLen_ws_prefix [OF sp, of D] by (simp add: wsLen_def)
  then have "trimStart ('' '' @ D) = trimStart D"
    using stripAll_step [of wsSeqs "'' '' @ D"] by (simp add: trimStart_def wsLen_def)
  also have "\<dots> = D" unfolding Dc using c by (rule trimStart_plain)
  finally have s: "matchSpaces ('' '' @ D) = Some D"
    using l by (simp add: matchSpaces_def)
  have tw: "takeWhile isDigit D = D" and dw: "dropWhile isDigit D = []"
    using assms(2) by (simp_all add: allDigits_def list_all_iff)
  have d: "matchDay D = Some (D, [])"
    unfolding matchDay_def Let_def tw dw using assms(3) by simp
  show ?thesis
    using m s d by (simp add: matchMonthDay_def)
qed

text \<open>
  C9. For every header \<open>Mon D\<close> made of a month abbreviation (in any letter case, \<open>okt\<close>
  included), one space and one or two digits \<open>D\<close>, the Date Resolver returns
  \<open>2025-MM-DD\<close>, with \<open>MM\<close> the month's number and \<open>DD\<close> the digits \<open>D\<close>, both padded to
  two places with a zero. \<open>D\<close> is not checked against the length of the month, and the
  result is never null.
\<close>

theorem C9_month_day_unvalidated:
  assumes "monthMap (toLowerCase mon) = Some k"
    and "allDigits D" and "length D = 1 \<or> length D = 2"
  shows "parseDate h (mon @ '' '' @ D) =
           Some (''2025-'' @ padStart2 (intToString (k + 1)) @ ''-'' @ padStart2 D)"
proof -
  let ?s = "mon @ '' '' @ D"
  have w: "toLowerCase mon \<in> set monthWords"
    using monthMap_words [OF assms(1)] by simp
  have len: "length mon = 3" using w by (rule monthWord_length)
  then have mon: "mon \<noteq> []" by auto
  have D: "D \<noteq> []" using assms(3) by auto
  have "hd ?s = hd mon" "last ?s = last D" using mon D by simp_all
  moreover have "asciiPlain (hd mon)"
    using monthWord_chars [OF w, of "hd mon"] mon by simp
  moreover have "isDigit (last D)"
    using D assms(2) by (auto simp: allDigits_def list_all_iff)
  ultimately have trim: "trim ?s = ?s"
    by (simp add: trim_plain isDigit_not_ws asciiPlain_not_ws)
  have iso: "\<not> isoShape ?s"
    using len assms(3) by (auto simp: isoShape_def)
  have no_slash: "CHR ''/'' \<notin> set ?s"
    using monthWord_chars [OF w] assms(2) by (auto simp: allDigits_def list_all_iff isDigit_def)
  then have "splitOn (CHR ''/'') ?s = [?s]" by (rule splitOn_none)
  then have slash: "slashDate h ?s = None"
    by (simp add: slashDate_def slashParts_def)
  have "monthNameMatch ?s = Some (mon, D)"
    using matchMonthDay_token [OF w assms(2,3)] by (simp add: monthNameMatch_def)
  then have month: "monthNameDate ?s = Some (formatIsoDate 2025 k (digitsToInt D))"
    using assms(1) by (simp add: monthNameDate_def)
  have year: "intToString 2025 = ''2025''"
    by code_simp
  have "formatIsoDate 2025 k (digitsToInt D) =
          ''2025-'' @ padStart2 (intToString (k + 1)) @ ''-'' @ padStart2 D"
    using padStart2_digits [OF assms(2,3)] by (simp add: formatIsoDate_def year)
  with month show ?thesis
    unfolding parseDate_def trim Let_def using mon iso slash by simp
qed

theorem C9_month_day_unvalidated_witness:
  "(\<forall>h. parseDate h ''Feb 30'' = Some ''2025-02-30'') \<and>
   (\<forall>h. parseDate h ''Jan 99'' = Some ''2025-01-99'') \<and>
   (\<forall>h. parseDate h ''OKT 7'' = Some ''2025-10-07'')"
proof -
  have m: "monthMap (toLowerCase ''Feb'') = Some 1" "monthMap (toLowerCase ''Jan'') = Some 0"
    "monthMap (toLowerCase ''OKT'') = Some 9"
    by code_simp+
  have d: "allDigits ''30''" "allDigits ''99''" "allDigits ''7''"
    by (simp_all add: allDigits_def isDigit_def)
  have p: "padStart2 (intToString 2) = ''02''" "padStart2 (intToString 1) = ''01''"
    "padStart2 (intToString 10) = ''10''" "padStart2 ''7'' = ''07''" "padStart2 ''30'' = ''30''"
    "padStart2 ''99'' = ''99''"
    by code_simp+
  have "parseDate h (''Feb'' @ '' '' @ ''30'') = Some ''2025-02-30''" for h
    using C9_month_day_unvalidated [OF m(1) d(1), of h] p by simp
  moreover have "parseDate h (''Jan'' @ '' '' @ ''99'') = Some ''2025-01-99''" for h
    using C9_month_day_unvalidated [OF m(2) d(2), of h] p by simp
  moreover have "parseDate h (''OKT'' @ '' '' @ ''7'') = Some ''2025-10-07''" for h
    using C9_month_day_unvalidated [OF m(3) d(3), of h] p by simp
  ultimately show ?thesis by simp
qed

section \<open>The text serializer\<close>

lemma count_joinWith:
  "xs \<noteq> [] \<Longrightarrow>
     count_list (joinWith [d] xs) d = (length xs - 1) + sum_list (map (\<lambda>v. count_list v d) xs)"
  by (induction "[d]" xs rule: joinWith.induct) simp_all

lemma sum_list_pos_member:
  "v \<in> set xs \<Longrightarrow> 0 < f v \<Longrightarrow> 0 < sum_list (map f xs)" for f :: "'a \<Rightarrow> nat"
  by (induction xs) auto

text \<open>
  C10. The text serializer quotes and escapes nothing. No records give the empty text,
  without a header line. Otherwise the text is the header line and one line for a record,
  joined by newlines, and the line of a record is its seven values (the date as the Date
  Resolver returns it) joined by single commas: split at the commas it has seven columns
  and one more for every comma inside a value. So a record with a comma in any of its
  seven fields gives a line of more than seven columns. For a record the Row Transformer
  produced from a parsed grid the Date Resolver returns the date as it is, so the seven
  values are the record's seven fields.
\<close>

theorem C10_csv_no_escaping:
  "generateCSV h [] = [] \<and>
   (rows \<noteq> [] \<longrightarrow>
      generateCSV h rows =
        joinWith [CHR 0x0A]
          (joinWith '','' recordKeys # map (\<lambda>row. joinWith '','' (csvValues h row)) rows)) \<and>
   csvValues h r =
     [amount_currency r, amount_stringValue r, normalizedDate h r, parent_id r, parent_type r,
      description r, metadata_atlar_category r] \<and>
   length (splitOn (CHR '','') (joinWith '','' (csvValues h r))) =
     7 + sum_list (map (\<lambda>v. count_list v (CHR '','')) (csvValues h r)) \<and>
   ((\<exists>v \<in> set (excelValues r). CHR '','' \<in> set v) \<longrightarrow>
      7 < length (splitOn (CHR '','') (joinWith '','' (csvValues h r)))) \<and>
   (parseArrayData h grid = Inr pd \<and> r \<in> set (transformData h pd options) \<longrightarrow>
      csvValues h r =
        [amount_currency r, amount_stringValue r, date r, parent_id r, parent_type r,
         description r, metadata_atlar_category r])"
proof -
  have len: "length (splitOn (CHR '','') (joinWith '','' (csvValues h r))) =
     7 + sum_list (map (\<lambda>v. count_list v (CHR '','')) (csvValues h r))"
    using count_joinWith [of "csvValues h r" "CHR '',''"]
    by (simp add: length_splitOn csvValues_def)
  have more: "7 < length (splitOn (CHR '','') (joinWith '','' (csvValues h r)))"
    if "\<exists>v \<in> set (excelValues r). CHR '','' \<in> set v"
  proof -
    have nd: "CHR '','' \<in> set (normalizedDate h r)" if "CHR '','' \<in> set (date r)"
      using that parseDate_comma [OF that, of h] by (simp add: normalizedDate_def)
    from that obtain u where u: "u \<in> set (excelValues r)" "CHR '','' \<in> set u"
      by blast
    have "\<exists>v \<in> set (csvValues h r). CHR '','' \<in> set v"
    proof (cases "u = date r")
      case True
      with u(2) nd show ?thesis by (simp add: csvValues_def)
    next
      case False
      with u have "u \<in> set (csvValues h r)"
        by (auto simp: excelValues_def csvValues_def)
      with u(2) show ?thesis by blast
    qed
    then obtain v where v: "v \<in> set (csvValues h r)" "CHR '','' \<in> set v"
      by blast
    from v(2) have "0 < count_list v (CHR '','')"
      using count_list_0_iff [of v "CHR '',''"] by auto
    with v(1) have "0 < sum_list (map (\<lambda>v. count_list v (CHR '','')) (csvValues h r))"
      by (rule sum_list_pos_member)
    with len show ?thesis by simp
  qed
  have own: "csvValues h r =
        [amount_currency r, amount_stringValue r, date r, parent_id r, parent_type r,
         description r, metadata_atlar_category r]"
    if "parseArrayData h grid = Inr pd \<and> r \<in> set (transformData h pd options)"
    using that transformData_settled [of h grid pd r options]
    by (simp add: csvValues_def settled_normalizedDate)
  have gen: "generateCSV h [] = []"
    "rows \<noteq> [] \<longrightarrow> generateCSV h rows =
        joinWith [CHR 0x0A]
          (joinWith '','' recordKeys # map (\<lambda>row. joinWith '','' (csvValues h row)) rows)"
    "csvValues h r =
     [amount_currency r, amount_stringValue r, normalizedDate h r, parent_id r, parent_type r,
      description r, metadata_atlar_category r]"
    by (simp_all add: generateCSV_def csvValues_def)
  from gen len more own show ?thesis by blast
qed

theorem C10_csv_no_escaping_witness:
  "7 < length (splitOn (CHR '','')
         (joinWith '',''
            (csvValues \<lparr>zone = fixedZone 0, isoDayLimit = (\<lambda>y m. 31), numberText = (\<lambda>q. [])\<rparr>
               \<lparr>amount_currency = ''SEK'', amount_stringValue = ''150.00'', date = ''2025-01-01'',
                parent_id = ''ENTITY_ID'', parent_type = ''ENTITY'',
                description = ''Rent, office'', metadata_atlar_category = ''Rent, office''\<rparr>))) \<and>
   generateCSV \<lparr>zone = fixedZone 0, isoDayLimit = (\<lambda>y m. 31), numberText = (\<lambda>q. [])\<rparr>
     [\<lparr>amount_currency = ''SEK'', amount_stringValue = ''150.00'', date = ''2025-01-01'',
       parent_id = ''ENTITY_ID'', parent_type = ''ENTITY'',
       description = ''Rent, office'', metadata_atlar_category = ''Rent, office''\<rparr>]
   = ''amount.currency,amount.stringValue,date,parent.id,parent.type,description,metadata.atlar.category'' @
     [CHR 0x0A] @ ''SEK,150.00,2025-01-01,ENTITY_ID,ENTITY,Rent, office,Rent, office''"
proof -
  let ?h = "\<lparr>zone = fixedZone 0, isoDayLimit = (\<lambda>y m. 31), numberText = (\<lambda>q. [])\<rparr>"
  let ?r = "\<lparr>amount_currency = ''SEK'', amount_stringValue = ''150.00'', date = ''2025-01-01'',
                parent_id = ''ENTITY_ID'', parent_type = ''ENTITY'',
                description = ''Rent, office'', metadata_atlar_category = ''Rent, office''\<rparr>"
  have c: "\<exists>v \<in> set (excelValues ?r). CHR '','' \<in> set v"
    by (simp add: excelValues_def)
  have n: "[?r] \<noteq> []" by simp
  have l: "joinWith [CHR 0x0A] (joinWith '','' recordKeys # map (\<lambda>row. joinWith '','' (csvValues ?h row)) [?r])
     = ''amount.currency,amount.stringValue,date,parent.id,parent.type,description,metadata.atlar.category'' @
       [CHR 0x0A] @ ''SEK,150.00,2025-01-01,ENTITY_ID,ENTITY,Rent, office,Rent, office''"
    by code_simp
  note all = C10_csv_no_escaping [of ?h "[?r]" ?r]
  have 1: "7 < length (splitOn (CHR '','') (joinWith '','' (csvValues ?h ?r)))"
    using all [THEN conjunct2, THEN conjunct2, THEN conjunct2, THEN conjunct2, THEN conjunct1] c
    by (rule mp)
  have "generateCSV ?h [?r] =
     joinWith [CHR 0x0A] (joinWith '','' recordKeys # map (\<lambda>row. joinWith '','' (csvValues ?h row)) [?r])"
    using all [THEN conjunct2, THEN conjunct1] n by (rule mp)
  also note l
  finally have 2: "generateCSV ?h [?r] =
     ''amount.currency,amount.stringValue,date,parent.id,parent.type,description,metadata.atlar.category'' @
     [CHR 0x0A] @ ''SEK,150.00,2025-01-01,ENTITY_ID,ENTITY,Rent, office,Rent, office''" .
  from 1 2 show ?thesis by (rule conjI)
qed

end
